theory Spec2Isabelle
  imports Main "HOL-Library.Word" "HOL-Library.Char_ord" "HOL-Library.List_Lexorder"
    "HOL-Library.Sublist"
begin

section \<open>The LRU cache (package store, type Cache)\<close>

text \<open>
  Byte slices are modelled as strings (lists of bytes).  A Go pair \<open>(value, ok)\<close> is an
  option.  A Go function that can panic returns a \<open>result\<close>.
\<close>

type_synonym bytes = string

datatype 'a result = Returns 'a | Panics string

text \<open>The struct \<open>entry\<close>; its field \<open>value\<close> is called \<open>val\<close> here.\<close>

record entry =
  bucket :: bytes
  key :: bytes
  val :: bytes

text \<open>\<open>func (e *entry) Size() int\<close>\<close>

definition Size :: "entry \<Rightarrow> nat" where
  "Size e = length (bucket e) + length (key e) + length (val e)"

text \<open>
  The struct \<open>Cache\<close>.  A \<open>*list.Element\<close> is a handle (a natural number); \<open>evictList\<close>
  is the recency list of handles, front first; \<open>elements\<close> is the store that gives each
  element its \<open>*entry\<close>; \<open>items\<close> is the two-level map from bucket and key to the element.
  \<open>nextElem\<close> is the next handle that \<open>PushFront\<close> allocates.  The callback \<open>onEvict\<close>
  is modelled by a flag (is it non-nil) and by the log \<open>evicted\<close> of the entries it was
  called with, oldest call first.  \<open>size\<close> and \<open>maxSize\<close> are \<open>uint64\<close>; \<open>count\<close> is an
  \<open>int\<close> that the code only increments and decrements by one.
\<close>

record Cache =
  count :: int
  evictList :: "nat list"
  elements :: "nat \<Rightarrow> entry"
  items :: "bytes \<rightharpoonup> (bytes \<rightharpoonup> nat)"
  onEvict :: bool
  evicted :: "entry list"
  size :: "64 word"
  maxSize :: "64 word"
  nextElem :: nat

subsection \<open>The operations of \<open>container/list\<close> that the cache uses\<close>

definition PushFront :: "nat \<Rightarrow> nat list \<Rightarrow> nat list" where
  "PushFront e l = e # l"

text \<open>\<open>MoveToFront\<close> and \<open>Remove\<close> do nothing for an element that is not in the list.\<close>

definition MoveToFront :: "nat \<Rightarrow> nat list \<Rightarrow> nat list" where
  "MoveToFront e l = (if e \<in> set l then e # remove1 e l else l)"

definition list_Remove :: "nat \<Rightarrow> nat list \<Rightarrow> nat list" where
  "list_Remove e l = remove1 e l"

text \<open>\<open>Back\<close> returns nil on an empty list.\<close>

definition Back :: "nat list \<Rightarrow> nat option" where
  "Back l = (if l = [] then None else Some (last l))"

subsection \<open>The cache operations\<close>

definition NewCache :: "64 word \<Rightarrow> bool \<Rightarrow> Cache" where
  "NewCache m cb =
     \<lparr>count = 0, evictList = [], elements = (\<lambda>_. \<lparr>bucket = [], key = [], val = []\<rparr>),
      items = Map.empty, onEvict = cb, evicted = [], size = 0, maxSize = m, nextElem = 0\<rparr>"

text \<open>\<open>func (c *Cache) removeElement(e *list.Element)\<close>\<close>

definition removeElement :: "nat \<Rightarrow> Cache \<Rightarrow> Cache" where
  "removeElement e c =
     (let c1 = c\<lparr>evictList := list_Remove e (evictList c)\<rparr>;
          kv = elements c1 e
      in case items c1 (bucket kv) of
           None \<Rightarrow> c1
         | Some b \<Rightarrow>
             c1\<lparr>items := (items c1)(bucket kv \<mapsto> b(key kv := None)),
                size := size c1 - of_nat (Size kv),
                count := count c1 - 1,
                evicted := (if onEvict c1 then evicted c1 @ [kv] else evicted c1)\<rparr>)"

text \<open>\<open>func (c *Cache) removeOldest()\<close>\<close>

definition removeOldest :: "Cache \<Rightarrow> Cache" where
  "removeOldest c =
     (case Back (evictList c) of
        Some ent \<Rightarrow> removeElement ent c
      | None \<Rightarrow> c)"

text \<open>\<open>func (c *Cache) Add(bucketName, key, value []byte) bool\<close>\<close>

definition Add :: "bytes \<Rightarrow> bytes \<Rightarrow> bytes \<Rightarrow> Cache \<Rightarrow> bool \<times> Cache" where
  "Add bucketName k v c =
     (let b = (case items c bucketName of Some b \<Rightarrow> b | None \<Rightarrow> Map.empty)
      in case b k of
           Some ent \<Rightarrow>
             (False,
              c\<lparr>evictList := MoveToFront ent (evictList c),
                elements := (elements c)(ent := (elements c ent)\<lparr>val := v\<rparr>)\<rparr>)
         | None \<Rightarrow>
             (let ent = \<lparr>bucket = bucketName, key = k, val = v\<rparr>;
                  e = nextElem c;
                  c1 = c\<lparr>nextElem := Suc e,
                         evictList := PushFront e (evictList c),
                         elements := (elements c)(e := ent),
                         items := (items c)(bucketName \<mapsto> b(k \<mapsto> e)),
                         size := size c + of_nat (Size ent),
                         count := count c + 1\<rparr>;
                  evict = (maxSize c1 > 0 \<and> size c1 > maxSize c1)
              in (evict, if evict then removeOldest c1 else c1)))"

text \<open>\<open>func (c *Cache) Get(bucket, key []byte) (value []byte, ok bool)\<close>\<close>

definition Get :: "bytes \<Rightarrow> bytes \<Rightarrow> Cache \<Rightarrow> bytes option \<times> Cache" where
  "Get bkt k c =
     (case items c bkt of
        Some b \<Rightarrow>
          (case b k of
             Some ent \<Rightarrow>
               (Some (val (elements c ent)), c\<lparr>evictList := MoveToFront ent (evictList c)\<rparr>)
           | None \<Rightarrow> (None, c))
      | None \<Rightarrow> (None, c))"

text \<open>\<open>func (c *Cache) Contains(bucket, key []byte) (ok bool)\<close>\<close>

definition Contains :: "bytes \<Rightarrow> bytes \<Rightarrow> Cache \<Rightarrow> bool" where
  "Contains bkt k c =
     (case items c bkt of
        Some b \<Rightarrow> (case b k of Some ent \<Rightarrow> True | None \<Rightarrow> False)
      | None \<Rightarrow> False)"

text \<open>\<open>func (c *Cache) Peek(bucket, key []byte) (value []byte, ok bool)\<close>\<close>

definition Peek :: "bytes \<Rightarrow> bytes \<Rightarrow> Cache \<Rightarrow> bytes option" where
  "Peek bkt k c =
     (case items c bkt of
        Some b \<Rightarrow> (case b k of Some ent \<Rightarrow> Some (val (elements c ent)) | None \<Rightarrow> None)
      | None \<Rightarrow> None)"

text \<open>\<open>func (c *Cache) Remove(bucket, key []byte) bool\<close>\<close>

definition Remove :: "bytes \<Rightarrow> bytes \<Rightarrow> Cache \<Rightarrow> bool \<times> Cache" where
  "Remove bkt k c =
     (case items c bkt of
        Some b \<Rightarrow>
          (case b k of
             Some ent \<Rightarrow> (True, removeElement ent c)
           | None \<Rightarrow> (False, c))
      | None \<Rightarrow> (False, c))"

text \<open>\<open>func (c *Cache) RemoveOldest() ([]byte, []byte, []byte, bool)\<close>\<close>

definition RemoveOldest :: "Cache \<Rightarrow> (bytes \<times> bytes \<times> bytes) option \<times> Cache" where
  "RemoveOldest c =
     (case Back (evictList c) of
        Some ent \<Rightarrow>
          (let c1 = removeElement ent c; kv = elements c1 ent
           in (Some (bucket kv, key kv, val kv), c1))
      | None \<Rightarrow> (None, c))"

text \<open>\<open>func (c *Cache) GetOldest() ([]byte, []byte, []byte, bool)\<close>\<close>

definition GetOldest :: "Cache \<Rightarrow> (bytes \<times> bytes \<times> bytes) option" where
  "GetOldest c =
     (case Back (evictList c) of
        Some ent \<Rightarrow> (let kv = elements c ent in Some (bucket kv, key kv, val kv))
      | None \<Rightarrow> None)"

text \<open>\<open>func (c *Cache) Len() int\<close>\<close>

definition Len :: "Cache \<Rightarrow> nat" where
  "Len c = length (evictList c)"

text \<open>
  \<open>func (c *Cache) Keys() []string\<close>.  The slice \<open>keys\<close> is declared without a length, the
  loop walks from \<open>Back()\<close> along \<open>Prev()\<close> and assigns \<open>keys[i]\<close>; an index assignment
  beyond the length of a slice panics in Go.
\<close>

fun Keys_loop :: "Cache \<Rightarrow> nat list \<Rightarrow> string list \<Rightarrow> nat \<Rightarrow> string list result" where
  "Keys_loop c [] keys i = Returns keys"
| "Keys_loop c (ent # rest) keys i =
     (if i < length keys
      then Keys_loop c rest
             (keys[i := bucket (elements c ent) @ ''-'' @ key (elements c ent)]) (Suc i)
      else Panics ''index out of range'')"

definition Keys :: "Cache \<Rightarrow> string list result" where
  "Keys c = Keys_loop c (rev (evictList c)) [] 0"


subsection \<open>The recency list as entries, and the invariant of the representation\<close>

text \<open>The entries of the cache in recency order, most recently used first.\<close>

definition entries :: "Cache \<Rightarrow> entry list" where
  "entries c = map (elements c) (evictList c)"

text \<open>
  The representation invariant that ties \<open>items\<close> to \<open>evictList\<close>: no element is in the
  list twice, every listed element is older than the next allocation and is indexed in
  \<open>items\<close> under its own bucket and key, and every index entry points to a listed element
  with that bucket and key.  \<open>NewCache\<close> establishes it and \<open>Add\<close>, \<open>Get\<close>, \<open>Remove\<close> and
  \<open>RemoveOldest\<close> keep it (lemmas \<open>inv_New\<close> to \<open>inv_RemoveOldest\<close> below).
\<close>

definition cache_inv :: "Cache \<Rightarrow> bool" where
  "cache_inv c \<longleftrightarrow>
     distinct (evictList c) \<and>
     (\<forall>e \<in> set (evictList c). e < nextElem c \<and>
        (\<exists>b. items c (bucket (elements c e)) = Some b \<and> b (key (elements c e)) = Some e)) \<and>
     (\<forall>bkt b k e. items c bkt = Some b \<and> b k = Some e \<longrightarrow>
        e \<in> set (evictList c) \<and> bucket (elements c e) = bkt \<and> key (elements c e) = k)"

section \<open>Errors\<close>

text \<open>
  The error values that the modelled code returns: \<open>common.ErrInvalidParam\<close>,
  \<open>raft.ErrNotLeader\<close>, the package variable \<open>bucketNotFound\<close>, the errors of bolt's \<open>Put\<close>
  and \<open>Begin\<close>, \<open>errors.New\<close> and \<open>fmt.Errorf\<close> with a text (and the number formatted into
  it), and any other error of a collaborator.
\<close>

datatype error =
    ErrInvalidParam
  | ErrNotLeader
  | bucketNotFound
  | ErrDatabaseNotOpen
  | ErrKeyRequired
  | ErrKeyTooLarge
  | ErrValueTooLarge
  | errors_New string
  | fmt_Errorf string nat
  | other_error string

section \<open>Dashboards (package tree)\<close>

text \<open>
  \<open>model.Dashboard\<close> with the two fields the code below uses; the panel type is a
  parameter.  \<open>model.DashboardData\<close> is a slice of dashboards.
\<close>

record 'p Dashboard =
  Title :: string
  Panels :: "'p list"

text \<open>
  The methods \<open>getNodeIDByNS\<close>, \<open>getByteFromStore\<close> and \<open>setByteToStore\<close> of \<open>Tree\<close> and the
  JSON codec are not part of the sources at hand; they are parameters.  \<open>'t\<close> is the state
  behind the tree.  The two readers are taken not to change it.
\<close>

record ('t, 'p) TreeOps =
  getNodeIDByNS :: "'t \<Rightarrow> string \<Rightarrow> error + string"
  getByteFromStore :: "'t \<Rightarrow> string \<Rightarrow> string \<Rightarrow> error + bytes"
  setByteToStore :: "string \<Rightarrow> string \<Rightarrow> bytes \<Rightarrow> 't \<Rightarrow> error option \<times> 't"
  json_Unmarshal :: "bytes \<Rightarrow> error + 'p Dashboard list"
  json_Marshal :: "'p Dashboard list \<Rightarrow> error + bytes"

definition dashboardType :: string where
  "dashboardType = ''dashboard''"

text \<open>\<open>func (t *Tree) GetDashboard(ns string) (model.DashboardData, error)\<close>\<close>

definition GetDashboard :: "('t, 'p) TreeOps \<Rightarrow> 't \<Rightarrow> string \<Rightarrow> error + 'p Dashboard list" where
  "GetDashboard ops t ns =
     (case getNodeIDByNS ops t ns of
        Inl err \<Rightarrow> Inl err
      | Inr nodeID \<Rightarrow>
          (case getByteFromStore ops t nodeID dashboardType of
             Inl err \<Rightarrow> Inl err
           | Inr resByte \<Rightarrow>
               if length resByte = 0 then Inr []
               else (case json_Unmarshal ops resByte of
                       Inl err \<Rightarrow> Inl err
                     | Inr rl \<Rightarrow> Inr rl)))"

text \<open>\<open>func (t *Tree) SetDashboard(ns string, dashboards model.DashboardData) error\<close>\<close>

definition SetDashboard ::
  "('t, 'p) TreeOps \<Rightarrow> string \<Rightarrow> 'p Dashboard list \<Rightarrow> 't \<Rightarrow> error option \<times> 't" where
  "SetDashboard ops ns dashboards t =
     (case getNodeIDByNS ops t ns of
        Inl err \<Rightarrow> (Some err, t)
      | Inr nodeID \<Rightarrow>
          (case json_Marshal ops dashboards of
             Inl err \<Rightarrow> (Some err, t)
           | Inr resNewByte \<Rightarrow> setByteToStore ops nodeID dashboardType resNewByte t))"

text \<open>
  The methods below index the slice with the \<open>int\<close> \<open>dIndex\<close> after comparing it with the
  length from above only; Go panics on a negative index.  Their result is the returned
  error (\<open>None\<close> for nil) or a panic, together with the state.
\<close>

text \<open>\<open>func (t *Tree) UpdateDashboard(ns string, dIndex int, title string) error\<close>\<close>

definition UpdateDashboard ::
  "('t, 'p) TreeOps \<Rightarrow> string \<Rightarrow> int \<Rightarrow> string \<Rightarrow> 't \<Rightarrow> error option result \<times> 't" where
  "UpdateDashboard ops ns dIndex title t =
     (case GetDashboard ops t ns of
        Inl err \<Rightarrow> (Returns (Some err), t)
      | Inr dashboards \<Rightarrow>
          if dIndex \<ge> int (length dashboards) then (Returns (Some ErrInvalidParam), t)
          else if dIndex < 0 then (Panics ''index out of range'', t)
          else (let ds = dashboards[nat dIndex := (dashboards ! nat dIndex)\<lparr>Title := title\<rparr>];
                    (err, t') = SetDashboard ops ns ds t
                in (Returns err, t')))"

text \<open>Go's builtin \<open>copy(dst, src)\<close>: the first \<open>min (len dst) (len src)\<close> places of \<open>dst\<close>.\<close>

definition copy_slice :: "'a list \<Rightarrow> 'a list \<Rightarrow> 'a list" where
  "copy_slice dst src =
     (let n = min (length dst) (length src) in take n src @ drop n dst)"

text \<open>\<open>func (t *Tree) RemoveDashboard(ns string, dIndex int) error\<close>\<close>

definition RemoveDashboard ::
  "('t, 'p) TreeOps \<Rightarrow> string \<Rightarrow> int \<Rightarrow> 't \<Rightarrow> error option result \<times> 't" where
  "RemoveDashboard ops ns dIndex t =
     (case GetDashboard ops t ns of
        Inl err \<Rightarrow> (Returns (Some err), t)
      | Inr dashboards \<Rightarrow>
          if dIndex \<ge> int (length dashboards) then (Returns None, t)
          else if dIndex < 0 then (Panics ''slice bounds out of range'', t)
          else (let i = nat dIndex;
                    ds = take i dashboards @
                         copy_slice (drop i dashboards) (drop (i + 1) dashboards);
                    (err, t') = SetDashboard ops ns (take (length ds - 1) ds) t
                in (Returns err, t')))"

text \<open>
  \<open>func invalidOrder(order sort.IntSlice) bool\<close>: the loop over the sorted copy, leaving
  at the first place whose value is not its index.
\<close>

fun invalidOrder_loop :: "nat \<Rightarrow> int list \<Rightarrow> bool" where
  "invalidOrder_loop i [] = False"
| "invalidOrder_loop i (index # rest) =
     (if int i \<noteq> index then True else invalidOrder_loop (Suc i) rest)"

definition invalidOrder :: "int list \<Rightarrow> bool" where
  "invalidOrder order = (let tmp = sort order in invalidOrder_loop 0 tmp)"

text \<open>
  The loop of \<open>ReorderPanel\<close> that fills \<open>newPanels[i]\<close> with \<open>Panels[order]\<close> for the
  \<open>i\<close>-th \<open>order\<close> of \<open>newOrder\<close>; \<open>newPanels\<close> has the length of \<open>Panels\<close>, which by then
  is the length of \<open>newOrder\<close>, so only the read can be out of range.
\<close>

fun ReorderPanel_loop :: "'p list \<Rightarrow> int list \<Rightarrow> 'p list result" where
  "ReorderPanel_loop panels [] = Returns []"
| "ReorderPanel_loop panels (order # rest) =
     (if 0 \<le> order \<and> order < int (length panels)
      then (case ReorderPanel_loop panels rest of
              Returns newPanels \<Rightarrow> Returns (panels ! nat order # newPanels)
            | Panics m \<Rightarrow> Panics m)
      else Panics ''index out of range'')"

text \<open>\<open>func (t *Tree) ReorderPanel(ns string, dIndex int, newOrder []int) error\<close>\<close>

definition ReorderPanel ::
  "('t, 'p) TreeOps \<Rightarrow> string \<Rightarrow> int \<Rightarrow> int list \<Rightarrow> 't \<Rightarrow> error option result \<times> 't" where
  "ReorderPanel ops ns dIndex newOrder t =
     (case GetDashboard ops t ns of
        Inl err \<Rightarrow> (Returns (Some ErrInvalidParam), t)
      | Inr dashboards \<Rightarrow>
          if length dashboards = 0 \<or> dIndex \<ge> int (length dashboards)
          then (Returns (Some ErrInvalidParam), t)
          else if dIndex < 0 then (Panics ''index out of range'', t)
          else if length (Panels (dashboards ! nat dIndex)) \<noteq> length newOrder
          then (Returns (Some (errors_New ''dashboard name or new order invalid'')), t)
          else if invalidOrder newOrder
          then (Returns (Some (errors_New ''dashboard new order invalid'')), t)
          else (case ReorderPanel_loop (Panels (dashboards ! nat dIndex)) newOrder of
                  Panics m \<Rightarrow> (Panics m, t)
                | Returns newPanels \<Rightarrow>
                    (let ds = dashboards[nat dIndex :=
                                (dashboards ! nat dIndex)\<lparr>Panels := newPanels\<rparr>];
                         (err, t') = SetDashboard ops ns ds t
                     in (Returns err, t'))))"


section \<open>The embedded key-value engine (bolt), as far as the store uses it\<close>

text \<open>
  bolt is a library outside the repository; what follows is its documented contract for
  the calls the store makes.  A bucket holds its pairs in ascending byte order of the keys
  (the order a cursor walks), each key once and never empty.  A database is the map from
  bucket names to buckets and a flag that says whether it is open; a transaction works on
  a copy of the map, which \<open>Commit\<close> writes back and \<open>Rollback\<close> drops.  Failures of the
  disk are not modelled.
\<close>

type_synonym bolt_Bucket = "(bytes \<times> bytes) list"

type_synonym bolt_Tx = "bytes \<rightharpoonup> bolt_Bucket"

record bolt_DB =
  opened :: bool
  buckets :: "bytes \<rightharpoonup> bolt_Bucket"

definition bucket_wf :: "bolt_Bucket \<Rightarrow> bool" where
  "bucket_wf kvs \<longleftrightarrow>
     sorted (map fst kvs) \<and> distinct (map fst kvs) \<and> [] \<notin> set (map fst kvs)"

definition MaxKeySize :: nat where
  "MaxKeySize = 32768"

definition MaxValueSize :: nat where
  "MaxValueSize = 2 ^ 31 - 2"

text \<open>\<open>func (db *DB) Begin(writable bool) (*Tx, error)\<close>\<close>

definition db_Begin :: "bool \<Rightarrow> bolt_DB \<Rightarrow> error + bolt_Tx" where
  "db_Begin writable d = (if opened d then Inr (buckets d) else Inl ErrDatabaseNotOpen)"

text \<open>\<open>func (tx *Tx) Bucket(name []byte) *Bucket\<close>, nil for a bucket that does not exist.\<close>

definition tx_Bucket :: "bolt_Tx \<Rightarrow> bytes \<Rightarrow> bolt_Bucket option" where
  "tx_Bucket tx name = tx name"

text \<open>The place of a key in the ordered pairs: replace the pair of an equal key.\<close>

fun put_pair :: "bytes \<Rightarrow> bytes \<Rightarrow> bolt_Bucket \<Rightarrow> bolt_Bucket" where
  "put_pair k v [] = [(k, v)]"
| "put_pair k v ((k', v') # rest) =
     (if k < k' then (k, v) # (k', v') # rest
      else if k = k' then (k, v) # rest
      else (k', v') # put_pair k v rest)"

text \<open>\<open>func (b *Bucket) Put(key []byte, value []byte) error\<close> on the bucket \<open>name\<close> of \<open>tx\<close>.\<close>

definition bucket_Put :: "bytes \<Rightarrow> bytes \<Rightarrow> bytes \<Rightarrow> bolt_Tx \<Rightarrow> error option \<times> bolt_Tx" where
  "bucket_Put name k v tx =
     (if length k = 0 then (Some ErrKeyRequired, tx)
      else if length k > MaxKeySize then (Some ErrKeyTooLarge, tx)
      else if length v > MaxValueSize then (Some ErrValueTooLarge, tx)
      else (case tx name of
              None \<Rightarrow> (None, tx)
            | Some kvs \<Rightarrow> (None, tx(name \<mapsto> put_pair k v kvs))))"


text \<open>\<open>func (b *Bucket) Get(key []byte) []byte\<close>, nil for a key that is not there.\<close>

definition bucket_Get :: "bolt_Bucket \<Rightarrow> bytes \<Rightarrow> bytes option" where
  "bucket_Get kvs k = map_of kvs k"

text \<open>
  A cursor is the list of the pairs from its position on.  \<open>Seek\<close> moves to the first key
  that is not below the given one, \<open>Next\<close> to the pair after; past the end the key is nil.
\<close>

definition cursor_Seek :: "bytes \<Rightarrow> bolt_Bucket \<Rightarrow> bolt_Bucket" where
  "cursor_Seek seek kvs = dropWhile (\<lambda>p. fst p < seek) kvs"

text \<open>
  \<open>func (db *DB) Update(fn func(*Tx) error) error\<close>.  The function passed in runs on the
  transaction and on the state \<open>'a\<close> it closes over; an error rolls the transaction back,
  and leaves what the function did to the state it closes over.
\<close>

definition db_Update ::
  "(bolt_Tx \<Rightarrow> 'a \<Rightarrow> error option \<times> bolt_Tx \<times> 'a) \<Rightarrow> bolt_DB \<Rightarrow> 'a \<Rightarrow> error option \<times> bolt_DB \<times> 'a" where
  "db_Update fn d a =
     (case db_Begin True d of
        Inl err \<Rightarrow> (Some err, d, a)
      | Inr tx \<Rightarrow>
          (case fn tx a of
             (Some err, tx', a') \<Rightarrow> (Some err, d, a')
           | (None, tx', a') \<Rightarrow> (None, d\<lparr>buckets := tx'\<rparr>, a')))"

section \<open>The replicated store (package store, type Store)\<close>

text \<open>The states of \<open>raft.RaftState\<close>, which \<open>s.raft.State()\<close> returns.\<close>

datatype RaftState = Follower | Candidate | Leader | Shutdown

datatype commandType =
    update | batch | createBucket | removeBucket | removeKey | createBucketIfNotExist
  | setSession | delSession | setPeer | restore

record command =
  Typ :: commandType
  Sub :: bytes

text \<open>\<open>model.Row\<close>, with the three fields the store uses.\<close>

record Row =
  Bucket :: bytes
  Key :: bytes
  Value :: bytes

record databaseSub =
  Name :: bytes
  Batch :: "Row list"

text \<open>
  \<open>sessionSub\<close>; its fields \<open>Key\<close> and \<open>Value\<close> are called \<open>sessionKey\<close> and
  \<open>sessionValue\<close> here, and the opaque tokens they hold are byte strings.
\<close>

record sessionSub =
  sessionKey :: bytes
  sessionValue :: bytes

text \<open>
  The part of \<open>Store\<close> that the write and read paths touch: the raft state of the node,
  the database, the cache, the session table, and \<open>proposed\<close>, the log entries this node
  has handed to \<open>s.raft.Apply\<close>, oldest first.
\<close>

record Store =
  raftState :: RaftState
  db :: bolt_DB
  cache :: Cache
  session :: "bytes \<rightharpoonup> bytes"
  proposed :: "bytes list"

text \<open>
  What comes back from \<open>s.raft.Apply\<close>: the error of the future, or the response of the
  state machine, which wraps an error or nil.
\<close>

datatype ApplyFuture = Future_Error error | Future_Response "error option"

text \<open>
  The collaborators of the store: \<open>encoding/json\<close> on the payloads and on the command,
  and the consensus module, which takes a log entry and, in its own time, changes the
  store through the state machine.
\<close>

record Collab =
  Marshal_databaseSub :: "databaseSub \<Rightarrow> error + bytes"
  Marshal_sessionSub :: "sessionSub \<Rightarrow> error + bytes"
  Marshal_command :: "command \<Rightarrow> error + bytes"
  Unmarshal_databaseSub :: "bytes \<Rightarrow> error + databaseSub"
  raft_Apply :: "bytes \<Rightarrow> Store \<Rightarrow> ApplyFuture \<times> Store"

text \<open>\<open>func newCommand(t commandType, d interface{}) (*command, error)\<close>, once per payload type.\<close>

definition newCommand_databaseSub :: "Collab \<Rightarrow> commandType \<Rightarrow> databaseSub \<Rightarrow> error + command" where
  "newCommand_databaseSub co t d =
     (case Marshal_databaseSub co d of
        Inl err \<Rightarrow> Inl err
      | Inr b \<Rightarrow> Inr \<lparr>Typ = t, Sub = b\<rparr>)"

definition newCommand_sessionSub :: "Collab \<Rightarrow> commandType \<Rightarrow> sessionSub \<Rightarrow> error + command" where
  "newCommand_sessionSub co t d =
     (case Marshal_sessionSub co d of
        Inl err \<Rightarrow> Inl err
      | Inr b \<Rightarrow> Inr \<lparr>Typ = t, Sub = b\<rparr>)"

text \<open>
  The lines that every write method repeats after \<open>newCommand\<close>: marshal the command, hand
  it to \<open>s.raft.Apply\<close>, return the error of the future or the error in the response.
\<close>

definition propose :: "Collab \<Rightarrow> command \<Rightarrow> Store \<Rightarrow> error option \<times> Store" where
  "propose co c s =
     (case Marshal_command co c of
        Inl err \<Rightarrow> (Some err, s)
      | Inr b \<Rightarrow>
          (case raft_Apply co b (s\<lparr>proposed := proposed s @ [b]\<rparr>) of
             (Future_Error e, s') \<Rightarrow> (if e = ErrNotLeader then (Some ErrNotLeader, s') else (Some e, s'))
           | (Future_Response r, s') \<Rightarrow> (r, s')))"

text \<open>\<open>func (s *Store) Update(bucket []byte, key []byte, value []byte) error\<close>\<close>

definition Update :: "Collab \<Rightarrow> bytes \<Rightarrow> bytes \<Rightarrow> bytes \<Rightarrow> Store \<Rightarrow> error option \<times> Store" where
  "Update co bkt k v s =
     (if raftState s \<noteq> Leader then (Some ErrNotLeader, s)
      else (let rows = [\<lparr>Bucket = bkt, Key = k, Value = v\<rparr>];
                d = \<lparr>Name = [], Batch = rows\<rparr>
            in case newCommand_databaseSub co update d of
                 Inl err \<Rightarrow> (Some err, s)
               | Inr c \<Rightarrow> propose co c s))"

text \<open>
  \<open>func (s *Store) Batch(rows []model.Row) error\<close>, called \<open>Store_Batch\<close> here because
  \<open>Batch\<close> is the field of \<open>databaseSub\<close>.
\<close>

definition Store_Batch :: "Collab \<Rightarrow> Row list \<Rightarrow> Store \<Rightarrow> error option \<times> Store" where
  "Store_Batch co rows s =
     (if raftState s \<noteq> Leader then (Some ErrNotLeader, s)
      else if length rows = 0 then (Some (errors_New ''no data in batch''), s)
      else (let d = \<lparr>Name = [], Batch = rows\<rparr>
            in case newCommand_databaseSub co batch d of
                 Inl err \<Rightarrow> (Some err, s)
               | Inr c \<Rightarrow> propose co c s))"

text \<open>\<open>func (s *Store) CreateBucket(name []byte) error\<close>\<close>

definition CreateBucket :: "Collab \<Rightarrow> bytes \<Rightarrow> Store \<Rightarrow> error option \<times> Store" where
  "CreateBucket co name s =
     (if raftState s \<noteq> Leader then (Some ErrNotLeader, s)
      else (let d = \<lparr>Name = name, Batch = []\<rparr>
            in case newCommand_databaseSub co createBucket d of
                 Inl err \<Rightarrow> (Some err, s)
               | Inr c \<Rightarrow> propose co c s))"

text \<open>\<open>func (s *Store) CreateBucketIfNotExist(name []byte) error\<close>\<close>

definition CreateBucketIfNotExist :: "Collab \<Rightarrow> bytes \<Rightarrow> Store \<Rightarrow> error option \<times> Store" where
  "CreateBucketIfNotExist co name s =
     (if raftState s \<noteq> Leader then (Some ErrNotLeader, s)
      else (let d = \<lparr>Name = name, Batch = []\<rparr>
            in case newCommand_databaseSub co createBucketIfNotExist d of
                 Inl err \<Rightarrow> (Some err, s)
               | Inr c \<Rightarrow> propose co c s))"

text \<open>\<open>func (s *Store) RemoveKey(bucket, key []byte) error\<close>\<close>

definition RemoveKey :: "Collab \<Rightarrow> bytes \<Rightarrow> bytes \<Rightarrow> Store \<Rightarrow> error option \<times> Store" where
  "RemoveKey co bkt k s =
     (if raftState s \<noteq> Leader then (Some ErrNotLeader, s)
      else (let rows = [\<lparr>Bucket = bkt, Key = k, Value = []\<rparr>];
                d = \<lparr>Name = [], Batch = rows\<rparr>
            in case newCommand_databaseSub co removeKey d of
                 Inl err \<Rightarrow> (Some err, s)
               | Inr c \<Rightarrow> propose co c s))"

text \<open>\<open>func (s *Store) RemoveBucket(name []byte) error\<close>\<close>

definition RemoveBucket :: "Collab \<Rightarrow> bytes \<Rightarrow> Store \<Rightarrow> error option \<times> Store" where
  "RemoveBucket co name s =
     (if raftState s \<noteq> Leader then (Some ErrNotLeader, s)
      else (let d = \<lparr>Name = name, Batch = []\<rparr>
            in case newCommand_databaseSub co removeBucket d of
                 Inl err \<Rightarrow> (Some err, s)
               | Inr c \<Rightarrow> propose co c s))"

text \<open>\<open>func (s *Store) SetSession(k, v interface{}) error\<close>\<close>

definition SetSession :: "Collab \<Rightarrow> bytes \<Rightarrow> bytes \<Rightarrow> Store \<Rightarrow> error option \<times> Store" where
  "SetSession co k v s =
     (if raftState s \<noteq> Leader then (Some ErrNotLeader, s)
      else (let d = \<lparr>sessionKey = k, sessionValue = v\<rparr>
            in case newCommand_sessionSub co setSession d of
                 Inl err \<Rightarrow> (Some err, s)
               | Inr c \<Rightarrow> propose co c s))"

text \<open>\<open>func (s *Store) DelSession(k interface{}) error\<close>\<close>

definition DelSession :: "Collab \<Rightarrow> bytes \<Rightarrow> Store \<Rightarrow> error option \<times> Store" where
  "DelSession co k s =
     (if raftState s \<noteq> Leader then (Some ErrNotLeader, s)
      else (let d = \<lparr>sessionKey = k, sessionValue = []\<rparr>
            in case newCommand_sessionSub co delSession d of
                 Inl err \<Rightarrow> (Some err, s)
               | Inr c \<Rightarrow> propose co c s))"

text \<open>\<open>func (s *Store) Restore(backupfile string) error\<close>\<close>

definition Restore :: "Collab \<Rightarrow> string \<Rightarrow> Store \<Rightarrow> error option \<times> Store" where
  "Restore co backupfile s =
     (if raftState s \<noteq> Leader then (Some ErrNotLeader, s)
      else (let d = \<lparr>Name = backupfile, Batch = []\<rparr>
            in case newCommand_databaseSub co restore d of
                 Inl err \<Rightarrow> (Some err, s)
               | Inr c \<Rightarrow> propose co c s))"

text \<open>
  \<open>func (s *Store) ViewPrefix(bucket, keyPrefix []byte) (map[string]string, error)\<close>.
  The loop runs while the key under the cursor is not empty and starts with the prefix,
  and stores the pairs whose value is not empty.  The transaction is rolled back, so the
  store stays as it is.
\<close>

fun ViewPrefix_loop :: "bytes \<Rightarrow> bolt_Bucket \<Rightarrow> (string \<rightharpoonup> string) \<Rightarrow> (string \<rightharpoonup> string)" where
  "ViewPrefix_loop keyPrefix [] result = result"
| "ViewPrefix_loop keyPrefix ((k, v) # rest) result =
     (if length k \<noteq> 0 \<and> prefix keyPrefix k
      then ViewPrefix_loop keyPrefix rest (if length v \<noteq> 0 then result(k \<mapsto> v) else result)
      else result)"

definition ViewPrefix :: "bytes \<Rightarrow> bytes \<Rightarrow> Store \<Rightarrow> (string \<rightharpoonup> string) \<times> error option" where
  "ViewPrefix bkt keyPrefix s =
     (case db_Begin True (db s) of
        Inl err \<Rightarrow> (Map.empty, Some err)
      | Inr tx \<Rightarrow>
          (case tx_Bucket tx bkt of
             None \<Rightarrow> (Map.empty, Some bucketNotFound)
           | Some b \<Rightarrow> (ViewPrefix_loop keyPrefix (cursor_Seek keyPrefix b) Map.empty, None)))"

subsection \<open>The state machine: applying \<open>update\<close> and \<open>removeKey\<close>\<close>

text \<open>
  \<open>func (f *fsm) applyUpdate(sub json.RawMessage) error\<close>.  The function given to
  \<open>db.Update\<close> closes over the cache.
\<close>

definition applyUpdate :: "Collab \<Rightarrow> bytes \<Rightarrow> Store \<Rightarrow> error option \<times> Store" where
  "applyUpdate co sub f =
     (case Unmarshal_databaseSub co sub of
        Inl err \<Rightarrow> (Some err, f)
      | Inr d \<Rightarrow>
          (let rows = Batch d
           in if length rows \<noteq> 1
              then (Some (fmt_Errorf ''update just accept 1 row data: %d'' (length rows)), f)
              else (let (err, d', c') =
                          db_Update
                            (\<lambda>tx c.
                               case tx_Bucket tx (Bucket (rows ! 0)) of
                                 None \<Rightarrow> (Some bucketNotFound, tx, c)
                               | Some b \<Rightarrow>
                                   (let (err, tx') =
                                          bucket_Put (Bucket (rows ! 0)) (Key (rows ! 0))
                                            (Value (rows ! 0)) tx;
                                        c' = snd (Remove (Bucket (rows ! 0)) (Key (rows ! 0)) c)
                                    in (err, tx', c')))
                            (db f) (cache f)
                    in (err, f\<lparr>db := d', cache := c'\<rparr>))))"



section \<open>Example states\<close>

text \<open>
  A tree whose state is the stored blob of its one namespace \<open>ns\<close>, with a codec that
  knows two dashboard lists: \<open>A\<close> holds one dashboard with the panels 10, 20, 30, and \<open>B\<close>
  holds the same dashboard with the panels 30, 10, 20.
\<close>

definition exampleTree :: "(bytes, nat) TreeOps" where
  "exampleTree =
     \<lparr>getNodeIDByNS = (\<lambda>t ns. if ns = ''ns'' then Inr ''1'' else Inl (other_error ''no such ns'')),
      getByteFromStore = (\<lambda>t nodeID resType. Inr t),
      setByteToStore = (\<lambda>nodeID resType b t. (None, b)),
      json_Unmarshal = (\<lambda>b.
         if b = ''A'' then Inr [\<lparr>Title = ''d'', Panels = [10, 20, 30]\<rparr>]
         else if b = ''B'' then Inr [\<lparr>Title = ''d'', Panels = [30, 10, 20]\<rparr>]
         else Inl (other_error ''invalid character'')),
      json_Marshal = (\<lambda>ds.
         if ds = [\<lparr>Title = ''d'', Panels = [10, 20, 30]\<rparr>] then Inr ''A''
         else if ds = [\<lparr>Title = ''d'', Panels = [30, 10, 20]\<rparr>] then Inr ''B''
         else Inl (other_error ''unsupported value''))\<rparr>"

text \<open>
  Collaborators for a store: a codec that knows three payloads (\<open>r0\<close> without a row,
  \<open>r1\<close> with the row of bucket \<open>b\<close>, key \<open>k\<close> and value \<open>v\<close>, \<open>r2\<close> with the row of bucket
  \<open>b\<close>, key \<open>k\<close> and the empty value), and a consensus module that answers every entry
  with a nil response.
\<close>

definition exampleCollab :: Collab where
  "exampleCollab =
     \<lparr>Marshal_databaseSub = (\<lambda>d. Inl (other_error ''unsupported value'')),
      Marshal_sessionSub = (\<lambda>d. Inl (other_error ''unsupported value'')),
      Marshal_command = (\<lambda>c. Inl (other_error ''unsupported value'')),
      Unmarshal_databaseSub = (\<lambda>b.
         if b = ''r0'' then Inr \<lparr>Name = [], Batch = []\<rparr>
         else if b = ''r1'' then Inr \<lparr>Name = [], Batch = [\<lparr>Bucket = ''b'', Key = ''k'', Value = ''v''\<rparr>]\<rparr>
         else if b = ''r2'' then Inr \<lparr>Name = [], Batch = [\<lparr>Bucket = ''b'', Key = ''k'', Value = []\<rparr>]\<rparr>
         else Inl (other_error ''invalid character'')),
      raft_Apply = (\<lambda>b s. (Future_Response None, s))\<rparr>"

text \<open>
  A store in the given raft state whose open database has the one bucket \<open>b\<close> with the
  given pairs, with an empty cache of 50 MiB (\<open>cacheMaxMemorySize\<close>, no callback, as \<open>New\<close>
  makes it) and no session.
\<close>

definition exampleStore :: "RaftState \<Rightarrow> bolt_Bucket \<Rightarrow> Store" where
  "exampleStore st kvs =
     \<lparr>raftState = st,
      db = \<lparr>opened = True, buckets = [''b'' \<mapsto> kvs]\<rparr>,
      cache = NewCache (1024 * 1024 * 50) False,
      session = Map.empty,
      proposed = []\<rparr>"


section \<open>Properties of the cache\<close>

subsection \<open>The operations keep the invariant\<close>

lemma inv_New: "cache_inv (NewCache m cb)"
  by (simp add: cache_inv_def NewCache_def)

lemma cache_invD1:
  "cache_inv c \<Longrightarrow> e \<in> set (evictList c) \<Longrightarrow>
   \<exists>b. items c (bucket (elements c e)) = Some b \<and> b (key (elements c e)) = Some e"
  by (simp add: cache_inv_def)

lemma cache_invD2:
  "cache_inv c \<Longrightarrow> items c bkt = Some b \<Longrightarrow> b k = Some e \<Longrightarrow>
   e \<in> set (evictList c) \<and> bucket (elements c e) = bkt \<and> key (elements c e) = k"
  unfolding cache_inv_def by blast

lemma cache_inv_fresh: "cache_inv c \<Longrightarrow> e \<in> set (evictList c) \<Longrightarrow> e < nextElem c"
  by (simp add: cache_inv_def)

lemma cache_inv_distinct: "cache_inv c \<Longrightarrow> distinct (evictList c)"
  by (simp add: cache_inv_def)

lemma cache_inv_same_key:
  assumes "cache_inv c" "e \<in> set (evictList c)" "e' \<in> set (evictList c)"
    "bucket (elements c e) = bucket (elements c e')" "key (elements c e) = key (elements c e')"
  shows "e = e'"
proof -
  from cache_invD1[OF assms(1,2)] obtain b where
    b: "items c (bucket (elements c e)) = Some b" "b (key (elements c e)) = Some e" by blast
  from cache_invD1[OF assms(1,3)] obtain b' where
    b': "items c (bucket (elements c e')) = Some b'" "b' (key (elements c e')) = Some e'" by blast
  from b b' assms(4,5) show ?thesis by simp
qed

lemma removeElement_in:
  assumes "cache_inv c" "e \<in> set (evictList c)"
  shows "removeElement e c =
     c\<lparr>evictList := remove1 e (evictList c),
       items := (items c)(bucket (elements c e) \<mapsto>
                  (the (items c (bucket (elements c e))))(key (elements c e) := None)),
       size := size c - of_nat (Size (elements c e)),
       count := count c - 1,
       evicted := (if onEvict c then evicted c @ [elements c e] else evicted c)\<rparr>"
proof -
  from cache_invD1[OF assms] obtain b where
    b: "items c (bucket (elements c e)) = Some b" by blast
  show ?thesis
    by (simp add: removeElement_def list_Remove_def Let_def b)
qed

lemma inv_removeElement:
  assumes inv: "cache_inv c" and e: "e \<in> set (evictList c)"
  shows "cache_inv (removeElement e c)"
proof -
  let ?B = "bucket (elements c e)" and ?K = "key (elements c e)"
  from cache_invD1[OF inv e] obtain b where
    b: "items c ?B = Some b" "b ?K = Some e" by blast
  let ?c' = "removeElement e c"
  have ev: "evictList ?c' = remove1 e (evictList c)"
    and it: "items ?c' = (items c)(?B \<mapsto> b(?K := None))"
    and el: "elements ?c' = elements c" and nx: "nextElem ?c' = nextElem c"
    by (simp_all add: removeElement_in[OF inv e] b)
  have d: "distinct (evictList c)" by (rule cache_inv_distinct[OF inv])
  have mem: "\<And>h. h \<in> set (remove1 e (evictList c)) \<longleftrightarrow> h \<in> set (evictList c) \<and> h \<noteq> e"
    using d by auto
  have p1: "distinct (evictList ?c')" using d by (simp add: ev)
  have p2: "e' < nextElem ?c' \<and>
        (\<exists>b'. items ?c' (bucket (elements ?c' e')) = Some b' \<and> b' (key (elements ?c' e')) = Some e')"
    if "e' \<in> set (evictList ?c')" for e'
  proof -
    from that have h: "e' \<in> set (evictList c)" "e' \<noteq> e" by (simp_all add: ev mem)
    from cache_invD1[OF inv h(1)] obtain b' where
      b': "items c (bucket (elements c e')) = Some b'" "b' (key (elements c e')) = Some e'" by blast
    show ?thesis
    proof (cases "bucket (elements c e') = ?B")
      case True
      with b b' have bb: "b' = b" by simp
      have "key (elements c e') \<noteq> ?K" using b b' bb h(2) by auto
      then show ?thesis using True b' bb cache_inv_fresh[OF inv h(1)] by (simp add: it el nx)
    next
      case False
      then show ?thesis using b' cache_inv_fresh[OF inv h(1)] by (simp add: it el nx)
    qed
  qed
  have p3: "e' \<in> set (evictList ?c') \<and> bucket (elements ?c' e') = bkt \<and> key (elements ?c' e') = k"
    if "items ?c' bkt = Some b'" "b' k = Some e'" for bkt b' k e'
  proof (cases "bkt = ?B")
    case True
    with that have "b' = b(?K := None)" by (simp add: it)
    with that have k: "k \<noteq> ?K" "b k = Some e'" by (auto split: if_splits)
    from cache_invD2[OF inv b(1) k(2)] True k(1) show ?thesis
      by (auto simp: ev mem el)
  next
    case False
    with that have "items c bkt = Some b'" by (simp add: it)
    from cache_invD2[OF inv this that(2)] False show ?thesis
      by (auto simp: ev mem el)
  qed
  show ?thesis
    unfolding cache_inv_def
  proof (intro conjI ballI allI impI)
    show "distinct (evictList ?c')" by (rule p1)
  next
    fix e' assume "e' \<in> set (evictList ?c')"
    from p2[OF this] show "e' < nextElem ?c'" by simp
  next
    fix e' assume "e' \<in> set (evictList ?c')"
    from p2[OF this] show "\<exists>b'. items ?c' (bucket (elements ?c' e')) = Some b' \<and>
        b' (key (elements ?c' e')) = Some e'" by simp
  next
    fix bkt b' k e' assume "items ?c' bkt = Some b' \<and> b' k = Some e'"
    then show "e' \<in> set (evictList ?c')" using p3 by blast
  next
    fix bkt b' k e' assume "items ?c' bkt = Some b' \<and> b' k = Some e'"
    then show "bucket (elements ?c' e') = bkt" using p3 by blast
  next
    fix bkt b' k e' assume "items ?c' bkt = Some b' \<and> b' k = Some e'"
    then show "key (elements ?c' e') = k" using p3 by blast
  qed
qed


lemma cache_invI:
  assumes "distinct (evictList c)"
    and "\<And>e. e \<in> set (evictList c) \<Longrightarrow> e < nextElem c"
    and "\<And>e. e \<in> set (evictList c) \<Longrightarrow>
           \<exists>b. items c (bucket (elements c e)) = Some b \<and> b (key (elements c e)) = Some e"
    and "\<And>bkt b k e. items c bkt = Some b \<Longrightarrow> b k = Some e \<Longrightarrow>
           e \<in> set (evictList c) \<and> bucket (elements c e) = bkt \<and> key (elements c e) = k"
  shows "cache_inv c"
  unfolding cache_inv_def
proof (intro conjI ballI allI impI)
  show "distinct (evictList c)" by (rule assms(1))
next
  fix e assume "e \<in> set (evictList c)"
  then show "e < nextElem c" by (rule assms(2))
next
  fix e assume "e \<in> set (evictList c)"
  then show "\<exists>b. items c (bucket (elements c e)) = Some b \<and> b (key (elements c e)) = Some e"
    by (rule assms(3))
next
  fix bkt b k e assume "items c bkt = Some b \<and> b k = Some e"
  then show "e \<in> set (evictList c)" using assms(4) by blast
next
  fix bkt b k e assume "items c bkt = Some b \<and> b k = Some e"
  then show "bucket (elements c e) = bkt" using assms(4) by blast
next
  fix bkt b k e assume "items c bkt = Some b \<and> b k = Some e"
  then show "key (elements c e) = k" using assms(4) by blast
qed

lemma set_MoveToFront: "set (MoveToFront e l) = set l"
proof (cases "e \<in> set l")
  case True
  have "x \<in> set (remove1 e l) \<or> x = e \<longleftrightarrow> x \<in> set l" for x
    using True in_set_remove1[of x e l] by (cases "x = e") auto
  then show ?thesis using True by (auto simp: MoveToFront_def)
next
  case False
  then show ?thesis by (simp add: MoveToFront_def)
qed

lemma distinct_MoveToFront: "distinct l \<Longrightarrow> distinct (MoveToFront e l)"
  by (simp add: MoveToFront_def)

lemma inv_MoveToFront:
  assumes inv: "cache_inv c"
  shows "cache_inv (c\<lparr>evictList := MoveToFront e (evictList c)\<rparr>)"
proof (rule cache_invI)
  show "distinct (evictList (c\<lparr>evictList := MoveToFront e (evictList c)\<rparr>))"
    using cache_inv_distinct[OF inv] by (simp add: distinct_MoveToFront)
next
  fix h assume "h \<in> set (evictList (c\<lparr>evictList := MoveToFront e (evictList c)\<rparr>))"
  then have h: "h \<in> set (evictList c)" by (simp add: set_MoveToFront)
  show "h < nextElem (c\<lparr>evictList := MoveToFront e (evictList c)\<rparr>)"
    using cache_inv_fresh[OF inv h] by simp
  show "\<exists>b. items (c\<lparr>evictList := MoveToFront e (evictList c)\<rparr>)
              (bucket (elements (c\<lparr>evictList := MoveToFront e (evictList c)\<rparr>) h)) = Some b \<and>
            b (key (elements (c\<lparr>evictList := MoveToFront e (evictList c)\<rparr>) h)) = Some h"
    using cache_invD1[OF inv h] by simp
next
  fix bkt b k h
  assume "items (c\<lparr>evictList := MoveToFront e (evictList c)\<rparr>) bkt = Some b" "b k = Some h"
  then have "items c bkt = Some b" "b k = Some h" by simp_all
  from cache_invD2[OF inv this]
  show "h \<in> set (evictList (c\<lparr>evictList := MoveToFront e (evictList c)\<rparr>)) \<and>
        bucket (elements (c\<lparr>evictList := MoveToFront e (evictList c)\<rparr>) h) = bkt \<and>
        key (elements (c\<lparr>evictList := MoveToFront e (evictList c)\<rparr>) h) = k"
    by (simp add: set_MoveToFront)
qed

lemma inv_set_val:
  assumes inv: "cache_inv c"
  shows "cache_inv (c\<lparr>elements := (elements c)(e := (elements c e)\<lparr>val := v\<rparr>)\<rparr>)"
proof (rule cache_invI)
  let ?c' = "c\<lparr>elements := (elements c)(e := (elements c e)\<lparr>val := v\<rparr>)\<rparr>"
  have bk: "\<And>h. bucket (elements ?c' h) = bucket (elements c h)"
           "\<And>h. key (elements ?c' h) = key (elements c h)" by simp_all
  show "distinct (evictList ?c')" using cache_inv_distinct[OF inv] by simp
  {
    fix h assume "h \<in> set (evictList ?c')"
    then have h: "h \<in> set (evictList c)" by simp
    show "h < nextElem ?c'" using cache_inv_fresh[OF inv h] by simp
    show "\<exists>b. items ?c' (bucket (elements ?c' h)) = Some b \<and> b (key (elements ?c' h)) = Some h"
      using cache_invD1[OF inv h] unfolding bk by simp
  }
  {
    fix bkt b k h
    assume "items ?c' bkt = Some b" "b k = Some h"
    then have "items c bkt = Some b" "b k = Some h" by simp_all
    from cache_invD2[OF inv this]
    show "h \<in> set (evictList ?c') \<and> bucket (elements ?c' h) = bkt \<and> key (elements ?c' h) = k"
      unfolding bk by simp
  }
qed

lemma inv_push:
  assumes inv: "cache_inv c" and absent: "\<not> Contains bkt k c"
  shows "cache_inv (c\<lparr>nextElem := Suc (nextElem c),
             evictList := PushFront (nextElem c) (evictList c),
             elements := (elements c)(nextElem c := \<lparr>bucket = bkt, key = k, val = v\<rparr>),
             items := (items c)(bkt \<mapsto>
                 (case items c bkt of Some b \<Rightarrow> b | None \<Rightarrow> Map.empty)(k \<mapsto> nextElem c)),
             size := sz, count := cnt\<rparr>)" (is "cache_inv ?c'")
proof (rule cache_invI)
  let ?n = "nextElem c"
  let ?b0 = "case items c bkt of Some b \<Rightarrow> b | None \<Rightarrow> Map.empty"
  have nin: "?n \<notin> set (evictList c)" using cache_inv_fresh[OF inv] by blast
  have ev: "evictList ?c' = ?n # evictList c" by (simp add: PushFront_def)
  have b0k: "?b0 k = None" using absent by (simp add: Contains_def split: option.splits)
  show "distinct (evictList ?c')" using cache_inv_distinct[OF inv] nin by (simp add: ev)
  {
    fix h assume hin: "h \<in> set (evictList ?c')"
    show "h < nextElem ?c'" using hin cache_inv_fresh[OF inv, of h] by (auto simp: ev)
    show "\<exists>b. items ?c' (bucket (elements ?c' h)) = Some b \<and> b (key (elements ?c' h)) = Some h"
    proof (cases "h = ?n")
      case True
      then show ?thesis by simp
    next
      case False
      with hin have h: "h \<in> set (evictList c)" by (simp add: ev)
      from cache_invD1[OF inv h] obtain b where
        b: "items c (bucket (elements c h)) = Some b" "b (key (elements c h)) = Some h" by blast
      have "\<not> (bucket (elements c h) = bkt \<and> key (elements c h) = k)"
        using b b0k by auto
      then show ?thesis using False b by auto
    qed
  }
  {
    fix bkt' b k' h
    assume a: "items ?c' bkt' = Some b" "b k' = Some h"
    show "h \<in> set (evictList ?c') \<and> bucket (elements ?c' h) = bkt' \<and> key (elements ?c' h) = k'"
    proof (cases "bkt' = bkt \<and> k' = k")
      case True
      with a have "h = ?n" by auto
      with True show ?thesis by (simp add: ev)
    next
      case False
      have "\<exists>b'. items c bkt' = Some b' \<and> b' k' = Some h"
      proof (cases "bkt' = bkt")
        case True
        with False a have "?b0 k' = Some h" by (auto split: if_splits)
        then show ?thesis using True by (auto split: option.splits)
      next
        case False
        then show ?thesis using a by simp
      qed
      then obtain b' where b': "items c bkt' = Some b'" "b' k' = Some h" by blast
      from cache_invD2[OF inv b'] have h: "h \<in> set (evictList c)"
        "bucket (elements c h) = bkt'" "key (elements c h) = k'" by simp_all
      with nin have "h \<noteq> ?n" by blast
      then show ?thesis using h by (simp add: ev)
    qed
  }
qed


lemma Contains_iff:
  "Contains bkt k c \<longleftrightarrow> (\<exists>b e. items c bkt = Some b \<and> b k = Some e)"
  by (simp add: Contains_def split: option.splits)

lemma Add_present_eq:
  assumes "items c bkt = Some b" "b k = Some e"
  shows "Add bkt k v c =
     (False, c\<lparr>evictList := MoveToFront e (evictList c),
               elements := (elements c)(e := (elements c e)\<lparr>val := v\<rparr>)\<rparr>)"
  using assms by (simp add: Add_def)

lemma Add_absent_eq:
  assumes "\<not> Contains bkt k c"
  shows "Add bkt k v c =
     (let c1 = c\<lparr>nextElem := Suc (nextElem c),
             evictList := PushFront (nextElem c) (evictList c),
             elements := (elements c)(nextElem c := \<lparr>bucket = bkt, key = k, val = v\<rparr>),
             items := (items c)(bkt \<mapsto>
                 (case items c bkt of Some b \<Rightarrow> b | None \<Rightarrow> Map.empty)(k \<mapsto> nextElem c)),
             size := size c + of_nat (Size \<lparr>bucket = bkt, key = k, val = v\<rparr>),
             count := count c + 1\<rparr>;
          evict = (maxSize c > 0 \<and> size c + of_nat (Size \<lparr>bucket = bkt, key = k, val = v\<rparr>) > maxSize c)
      in (evict, if evict then removeOldest c1 else c1))"
proof -
  have "(case items c bkt of Some b \<Rightarrow> b | None \<Rightarrow> Map.empty) k = None"
    using assms by (simp add: Contains_def split: option.splits)
  then show ?thesis by (simp add: Add_def Let_def)
qed

lemma inv_removeOldest: "cache_inv c \<Longrightarrow> cache_inv (removeOldest c)"
  by (simp add: removeOldest_def Back_def inv_removeElement)

lemma inv_Add:
  assumes inv: "cache_inv c"
  shows "cache_inv (snd (Add bkt k v c))"
proof (cases "Contains bkt k c")
  case True
  then obtain b e where be: "items c bkt = Some b" "b k = Some e"
    by (auto simp: Contains_iff)
  have "cache_inv ((c\<lparr>evictList := MoveToFront e (evictList c)\<rparr>)
          \<lparr>elements := (elements (c\<lparr>evictList := MoveToFront e (evictList c)\<rparr>))
             (e := (elements (c\<lparr>evictList := MoveToFront e (evictList c)\<rparr>) e)\<lparr>val := v\<rparr>)\<rparr>)"
    by (rule inv_set_val[OF inv_MoveToFront[OF inv]])
  then show ?thesis by (simp add: Add_present_eq[OF be])
next
  case False
  show ?thesis
    using inv_push[OF inv False] inv_removeOldest
    by (simp add: Add_absent_eq[OF False] Let_def)
qed

lemma inv_Get: "cache_inv c \<Longrightarrow> cache_inv (snd (Get bkt k c))"
  by (simp add: Get_def inv_MoveToFront split: option.splits)

lemma inv_Remove:
  assumes inv: "cache_inv c"
  shows "cache_inv (snd (Remove bkt k c))"
proof (cases "Contains bkt k c")
  case True
  then obtain b e where be: "items c bkt = Some b" "b k = Some e"
    by (auto simp: Contains_iff)
  from cache_invD2[OF inv be] have "e \<in> set (evictList c)" by simp
  from inv_removeElement[OF inv this] show ?thesis by (simp add: Remove_def be)
next
  case False
  then show ?thesis using inv by (auto simp: Remove_def Contains_def split: option.splits)
qed

lemma inv_RemoveOldest: "cache_inv c \<Longrightarrow> cache_inv (snd (RemoveOldest c))"
  by (simp add: RemoveOldest_def Back_def Let_def inv_removeElement)

lemma remove1_filter_key:
  assumes inv: "cache_inv c" and e: "e \<in> set (evictList c)"
  shows "map (elements c) (remove1 e (evictList c)) =
         filter (\<lambda>x. \<not> (bucket x = bucket (elements c e) \<and> key x = key (elements c e)))
           (map (elements c) (evictList c))"
proof -
  have "remove1 e (evictList c) = filter (\<lambda>h. h \<noteq> e) (evictList c)"
    using cache_inv_distinct[OF inv]
    by (simp add: distinct_remove1_removeAll removeAll_filter_not_eq) (metis)
  also have "\<dots> = filter ((\<lambda>x. \<not> (bucket x = bucket (elements c e) \<and> key x = key (elements c e)))
                     \<circ> elements c) (evictList c)"
  proof (rule filter_cong[OF refl])
    fix h assume h: "h \<in> set (evictList c)"
    show "(h \<noteq> e) = ((\<lambda>x. \<not> (bucket x = bucket (elements c e) \<and> key x = key (elements c e)))
                     \<circ> elements c) h"
      using cache_inv_same_key[OF inv h e] by auto
  qed
  finally show ?thesis by (simp add: filter_map)
qed

lemma Add_present:
  assumes inv: "cache_inv c" and pres: "Contains bkt k c"
  shows "fst (Add bkt k v c) = False"
    and "entries (snd (Add bkt k v c)) =
           \<lparr>bucket = bkt, key = k, val = v\<rparr> #
           filter (\<lambda>x. \<not> (bucket x = bkt \<and> key x = k)) (entries c)"
    and "size (snd (Add bkt k v c)) = size c"
    and "count (snd (Add bkt k v c)) = count c"
    and "evicted (snd (Add bkt k v c)) = evicted c"
proof -
  from pres obtain b e where be: "items c bkt = Some b" "b k = Some e"
    by (auto simp: Contains_iff)
  note eq = Add_present_eq[OF be]
  from cache_invD2[OF inv be] have e: "e \<in> set (evictList c)"
    "bucket (elements c e) = bkt" "key (elements c e) = k" by simp_all
  show "fst (Add bkt k v c) = False" "size (snd (Add bkt k v c)) = size c"
    "count (snd (Add bkt k v c)) = count c" "evicted (snd (Add bkt k v c)) = evicted c"
    by (simp_all add: eq)
  have nin: "e \<notin> set (remove1 e (evictList c))"
    using cache_inv_distinct[OF inv] by simp
  have new: "(elements c e)\<lparr>val := v\<rparr> = \<lparr>bucket = bkt, key = k, val = v\<rparr>"
    using e(2,3) by (cases "elements c e") simp
  have "entries (snd (Add bkt k v c)) =
        map ((elements c)(e := (elements c e)\<lparr>val := v\<rparr>)) (e # remove1 e (evictList c))"
    using e(1) by (simp add: eq entries_def MoveToFront_def)
  also have "\<dots> = (elements c e)\<lparr>val := v\<rparr> # map (elements c) (remove1 e (evictList c))"
    using nin by (simp add: map_fun_upd)
  finally show "entries (snd (Add bkt k v c)) =
           \<lparr>bucket = bkt, key = k, val = v\<rparr> #
           filter (\<lambda>x. \<not> (bucket x = bkt \<and> key x = k)) (entries c)"
    using remove1_filter_key[OF inv e(1)] e(2,3) new by (simp add: entries_def)
qed


lemma remove1_last_distinct:
  "distinct xs \<Longrightarrow> xs \<noteq> [] \<Longrightarrow> remove1 (last xs) xs = butlast xs"
  by (induction xs) auto

lemma Add_absent:
  assumes inv: "cache_inv c" and absent: "\<not> Contains bkt k c"
    and ent_def: "ent = \<lparr>bucket = bkt, key = k, val = v\<rparr>"
    and sz_def: "sz = size c + of_nat (Size ent)"
    and evict_def: "evict = (maxSize c > 0 \<and> sz > maxSize c)"
  shows "fst (Add bkt k v c) = evict"
    and "entries (snd (Add bkt k v c)) =
           (if evict then butlast (ent # entries c) else ent # entries c)"
    and "size (snd (Add bkt k v c)) =
           (if evict then sz - of_nat (Size (last (ent # entries c))) else sz)"
    and "count (snd (Add bkt k v c)) = (if evict then count c else count c + 1)"
    and "evicted (snd (Add bkt k v c)) =
           (if evict \<and> onEvict c then evicted c @ [last (ent # entries c)] else evicted c)"
proof -
  let ?n = "nextElem c"
  define c1 where "c1 = c\<lparr>nextElem := Suc (nextElem c),
             evictList := PushFront (nextElem c) (evictList c),
             elements := (elements c)(nextElem c := \<lparr>bucket = bkt, key = k, val = v\<rparr>),
             items := (items c)(bkt \<mapsto>
                 (case items c bkt of Some b \<Rightarrow> b | None \<Rightarrow> Map.empty)(k \<mapsto> nextElem c)),
             size := size c + of_nat (Size \<lparr>bucket = bkt, key = k, val = v\<rparr>),
             count := count c + 1\<rparr>"
  have inv1: "cache_inv c1" unfolding c1_def by (rule inv_push[OF inv absent])
  have eq: "Add bkt k v c = (evict, if evict then removeOldest c1 else c1)"
    by (simp add: Add_absent_eq[OF absent] Let_def c1_def evict_def sz_def ent_def)
  have nin: "?n \<notin> set (evictList c)" using cache_inv_fresh[OF inv] by blast
  have ev1: "evictList c1 = ?n # evictList c" by (simp add: c1_def PushFront_def)
  have en1: "entries c1 = ent # entries c"
    using nin by (simp add: entries_def c1_def PushFront_def ent_def map_fun_upd)
  have f1: "size c1 = sz" "count c1 = count c + 1" "evicted c1 = evicted c"
    "onEvict c1 = onEvict c"
    by (simp_all add: c1_def sz_def ent_def)
  have ne: "evictList c1 \<noteq> []" by (simp add: ev1)
  define r where "r = last (evictList c1)"
  have rin: "r \<in> set (evictList c1)" unfolding r_def using ne by (rule last_in_set)
  have ro: "removeOldest c1 = removeElement r c1"
    using ne by (simp add: removeOldest_def Back_def r_def)
  note re = removeElement_in[OF inv1 rin]
  have "elements c1 r = last (entries c1)"
    unfolding entries_def r_def by (rule last_map[OF ne, symmetric])
  then have el: "elements c1 r = last (ent # entries c)"
    by (simp only: en1)
  have rm: "remove1 r (evictList c1) = butlast (evictList c1)"
    unfolding r_def by (rule remove1_last_distinct[OF cache_inv_distinct[OF inv1] ne])
  have ev2: "evictList (removeElement r c1) = butlast (evictList c1)"
    by (simp add: re rm)
  have el2: "elements (removeElement r c1) = elements c1"
    by (simp add: re)
  have "entries (removeOldest c1) = butlast (entries c1)"
    unfolding ro entries_def ev2 el2 by (rule map_butlast)
  then have en2: "entries (removeOldest c1) = butlast (ent # entries c)"
    by (simp only: en1)
  have f2: "size (removeOldest c1) = sz - of_nat (Size (last (ent # entries c)))"
    "count (removeOldest c1) = count c"
    "evicted (removeOldest c1) =
       (if onEvict c then evicted c @ [last (ent # entries c)] else evicted c)"
    unfolding ro el[symmetric] by (simp_all add: re f1)
  show "fst (Add bkt k v c) = evict" by (simp add: eq)
  show "entries (snd (Add bkt k v c)) =
           (if evict then butlast (ent # entries c) else ent # entries c)"
    by (simp add: eq en1 en2)
  show "size (snd (Add bkt k v c)) =
           (if evict then sz - of_nat (Size (last (ent # entries c))) else sz)"
    by (simp add: eq f1 f2)
  show "count (snd (Add bkt k v c)) = (if evict then count c else count c + 1)"
    by (simp add: eq f1 f2)
  show "evicted (snd (Add bkt k v c)) =
           (if evict \<and> onEvict c then evicted c @ [last (ent # entries c)] else evicted c)"
    by (simp add: eq f1 f2)
qed

lemma Keys_nonempty: "evictList c \<noteq> [] \<Longrightarrow> Keys c = Panics ''index out of range''"
  by (cases "rev (evictList c)") (simp_all add: Keys_def)

lemma Keys_empty: "evictList c = [] \<Longrightarrow> Keys c = Returns []"
  by (simp add: Keys_def)

subsection \<open>The size budget\<close>

text \<open>
  Claim C1: after any sequence of cache operations, with \<open>MaxBytes > 0\<close>, the sum of
  \<open>len(bucket) + len(key) + len(value)\<close> over the entries is at most \<open>MaxBytes\<close> when a
  mutating method returns.  The code does not keep this: \<open>Add\<close> evicts once, not until the
  size fits.  With \<open>MaxBytes = 5\<close>, adding the entry \<open>(a, a, a)\<close> of 3 bytes and then the
  entry \<open>(b, b, bbbbbbbb)\<close> of 10 bytes evicts the first entry and returns with the second
  one resident: the field \<open>size\<close> is 10, and so is the sum over the entries.
\<close>

theorem Add_over_budget:
  "(let c1 = snd (Add ''a'' ''a'' ''a'' (NewCache 5 False));
        c2 = snd (Add ''b'' ''b'' ''bbbbbbbb'' c1)
    in maxSize c2 = 5 \<and> size c2 = 10 \<and>
       entries c2 = [\<lparr>bucket = ''b'', key = ''b'', val = ''bbbbbbbb''\<rparr>] \<and>
       sum_list (map Size (entries c2)) = 10)"
  by (simp add: Add_def NewCache_def Let_def Size_def PushFront_def removeOldest_def Back_def
        removeElement_def list_Remove_def entries_def)

subsection \<open>\<open>Add\<close>\<close>

text \<open>
  Claim C3: in every cache state that satisfies the invariant, \<open>Add(bucket, key, value)\<close>
  does one of two things.  If the pair of bucket and key is present, it returns false, the
  entry of that pair carries the new value and stands at the front of the recency list,
  the other entries keep their order, and \<open>size\<close>, \<open>count\<close> and the callback log are as
  before (the size accounting is not run again).  If the pair is absent, the new entry is
  put at the front and its size is added to \<open>size\<close> (in \<open>uint64\<close> arithmetic); if
  \<open>maxSize > 0\<close> and the new \<open>size\<close> exceeds it, exactly the entry at the back is removed,
  its size is subtracted, the callback (if set) is called with it and the result is true;
  otherwise nothing is removed and the result is false.
\<close>

theorem Add_spec:
  assumes "cache_inv c"
  shows "(Contains bkt k c \<longrightarrow>
            fst (Add bkt k v c) = False \<and>
            entries (snd (Add bkt k v c)) =
              \<lparr>bucket = bkt, key = k, val = v\<rparr> #
              filter (\<lambda>x. \<not> (bucket x = bkt \<and> key x = k)) (entries c) \<and>
            size (snd (Add bkt k v c)) = size c \<and>
            count (snd (Add bkt k v c)) = count c \<and>
            evicted (snd (Add bkt k v c)) = evicted c) \<and>
         (\<not> Contains bkt k c \<longrightarrow>
            (let ent = \<lparr>bucket = bkt, key = k, val = v\<rparr>;
                 sz = size c + of_nat (Size ent);
                 evict = (maxSize c > 0 \<and> sz > maxSize c)
             in fst (Add bkt k v c) = evict \<and>
                entries (snd (Add bkt k v c)) =
                  (if evict then butlast (ent # entries c) else ent # entries c) \<and>
                size (snd (Add bkt k v c)) =
                  (if evict then sz - of_nat (Size (last (ent # entries c))) else sz) \<and>
                count (snd (Add bkt k v c)) = (if evict then count c else count c + 1) \<and>
                evicted (snd (Add bkt k v c)) =
                  (if evict \<and> onEvict c then evicted c @ [last (ent # entries c)]
                   else evicted c)))"
proof (intro conjI impI)
  assume p: "Contains bkt k c"
  show "fst (Add bkt k v c) = False" by (rule Add_present(1)[OF assms p])
  show "entries (snd (Add bkt k v c)) =
              \<lparr>bucket = bkt, key = k, val = v\<rparr> #
              filter (\<lambda>x. \<not> (bucket x = bkt \<and> key x = k)) (entries c)"
    by (rule Add_present(2)[OF assms p])
  show "size (snd (Add bkt k v c)) = size c" by (rule Add_present(3)[OF assms p])
  show "count (snd (Add bkt k v c)) = count c" by (rule Add_present(4)[OF assms p])
  show "evicted (snd (Add bkt k v c)) = evicted c" by (rule Add_present(5)[OF assms p])
next
  assume a: "\<not> Contains bkt k c"
  show "(let ent = \<lparr>bucket = bkt, key = k, val = v\<rparr>;
                 sz = size c + of_nat (Size ent);
                 evict = (maxSize c > 0 \<and> sz > maxSize c)
             in fst (Add bkt k v c) = evict \<and>
                entries (snd (Add bkt k v c)) =
                  (if evict then butlast (ent # entries c) else ent # entries c) \<and>
                size (snd (Add bkt k v c)) =
                  (if evict then sz - of_nat (Size (last (ent # entries c))) else sz) \<and>
                count (snd (Add bkt k v c)) = (if evict then count c else count c + 1) \<and>
                evicted (snd (Add bkt k v c)) =
                  (if evict \<and> onEvict c then evicted c @ [last (ent # entries c)]
                   else evicted c))"
    unfolding Let_def
    using Add_absent[OF assms a refl refl refl, of v] by blast
qed

theorem Add_spec_witness:
  "cache_inv (NewCache 5 True) \<and>
   \<not> Contains ''a'' ''a'' (NewCache 5 True) \<and>
   fst (Add ''a'' ''a'' ''a'' (NewCache 5 True)) = False \<and>
   entries (snd (Add ''a'' ''a'' ''a'' (NewCache 5 True))) =
     [\<lparr>bucket = ''a'', key = ''a'', val = ''a''\<rparr>] \<and>
   size (snd (Add ''a'' ''a'' ''a'' (NewCache 5 True))) = 3 \<and>
   cache_inv (snd (Add ''a'' ''a'' ''a'' (NewCache 5 True))) \<and>
   Contains ''a'' ''a'' (snd (Add ''a'' ''a'' ''a'' (NewCache 5 True))) \<and>
   fst (Add ''a'' ''a'' ''zzzzzzzz'' (snd (Add ''a'' ''a'' ''a'' (NewCache 5 True)))) = False \<and>
   entries (snd (Add ''a'' ''a'' ''zzzzzzzz'' (snd (Add ''a'' ''a'' ''a'' (NewCache 5 True))))) =
     [\<lparr>bucket = ''a'', key = ''a'', val = ''zzzzzzzz''\<rparr>] \<and>
   size (snd (Add ''a'' ''a'' ''zzzzzzzz'' (snd (Add ''a'' ''a'' ''a'' (NewCache 5 True))))) = 3"
proof -
  have i0: "cache_inv (NewCache 5 True)" by (rule inv_New)
  have a0: "\<not> Contains ''a'' ''a'' (NewCache 5 True)"
    by (simp add: Contains_def NewCache_def)
  have e0: "entries (NewCache 5 True) = []" "size (NewCache 5 True) = 0"
    "maxSize (NewCache 5 True) = 5"
    by (simp_all add: entries_def NewCache_def)
  note s0 = Add_spec[OF i0, of "''a''" "''a''" "''a''"]
  have i1: "cache_inv (snd (Add ''a'' ''a'' ''a'' (NewCache 5 True)))"
    by (rule inv_Add[OF i0])
  have a1: "Contains ''a'' ''a'' (snd (Add ''a'' ''a'' ''a'' (NewCache 5 True)))"
    by (simp add: Contains_def Add_def NewCache_def Let_def Size_def)
  note s1 = Add_spec[OF i1, of "''a''" "''a''" "''zzzzzzzz''"]
  have r0: "fst (Add ''a'' ''a'' ''a'' (NewCache 5 True)) = False"
    "entries (snd (Add ''a'' ''a'' ''a'' (NewCache 5 True))) =
       [\<lparr>bucket = ''a'', key = ''a'', val = ''a''\<rparr>]"
    "size (snd (Add ''a'' ''a'' ''a'' (NewCache 5 True))) = 3"
    using s0 a0 by (simp_all add: e0 Let_def Size_def)
  show ?thesis using i0 a0 i1 a1 r0 s1 by simp
qed

subsection \<open>\<open>Keys\<close>\<close>

text \<open>
  Claim C5: \<open>Keys()\<close> returns the composite identifiers \<open>bucket-key\<close> of the resident
  entries from oldest to newest, one per entry.  The code does not: on a cache that holds
  one entry, \<open>Keys()\<close> panics with an index out of range, because it assigns into a slice
  of length 0.
\<close>

theorem Keys_panics:
  "Keys (snd (Add ''b'' ''k'' ''v'' (NewCache 5 False))) = Panics ''index out of range''"
  by (simp add: Keys_def Add_def NewCache_def Let_def Size_def PushFront_def)

subsection \<open>\<open>Remove\<close> of a pair that is not resident\<close>

text \<open>
  Claim C10: in every cache state, \<open>Remove(bucket, key)\<close> for a pair that is not resident
  returns false and leaves the whole cache as it is: the size, the count, the recency
  list, every entry, and the log of callback calls.
\<close>

theorem Remove_absent:
  "\<not> Contains bkt k c \<Longrightarrow> Remove bkt k c = (False, c)"
  by (auto simp: Remove_def Contains_iff split: option.splits)

theorem Remove_absent_witness:
  "\<not> Contains ''b'' ''k'' (snd (Add ''a'' ''a'' ''a'' (NewCache 5 True))) \<and>
   Remove ''b'' ''k'' (snd (Add ''a'' ''a'' ''a'' (NewCache 5 True))) =
     (False, snd (Add ''a'' ''a'' ''a'' (NewCache 5 True)))"
proof -
  have "\<not> Contains ''b'' ''k'' (snd (Add ''a'' ''a'' ''a'' (NewCache 5 True)))"
    by (simp add: Contains_def Add_def NewCache_def Let_def Size_def)
  then show ?thesis
    using Remove_absent[of "''b''" "''k''" "snd (Add ''a'' ''a'' ''a'' (NewCache 5 True))"]
    by simp
qed

section \<open>Properties of the dashboard methods\<close>

lemma invalidOrder_loop_iff:
  "\<not> invalidOrder_loop i xs \<longleftrightarrow> xs = map int [i..<i + length xs]"
proof (induction xs arbitrary: i)
  case Nil
  then show ?case by simp
next
  case (Cons x xs)
  have "[i..<i + length (x # xs)] = i # [Suc i..<Suc i + length xs]"
    by (subst upt_rec) simp
  then show ?case using Cons.IH[of "Suc i"] by auto
qed

lemma invalidOrder_iff:
  "\<not> invalidOrder order \<longleftrightarrow> sort order = map int [0..<length order]"
  using invalidOrder_loop_iff[of 0 "sort order"] by (simp add: invalidOrder_def)

lemma valid_order_range:
  assumes "sort order = map int [0..<length order]" "x \<in> set order"
  shows "0 \<le> x \<and> x < int (length order)"
proof -
  have "set order = set (sort order)" by simp
  also have "\<dots> = int ` {0..<length order}" by (simp add: assms(1))
  finally show ?thesis using assms(2) by auto
qed

lemma ReorderPanel_loop_in_range:
  "(\<And>x. x \<in> set order \<Longrightarrow> 0 \<le> x \<and> x < int (length panels)) \<Longrightarrow>
   ReorderPanel_loop panels order = Returns (map (\<lambda>i. panels ! nat i) order)"
  by (induction order) auto

lemma ReorderPanel_valid:
  assumes get: "GetDashboard ops t ns = Inr ds"
    and d0: "0 \<le> dIndex" and d1: "dIndex < int (length ds)"
    and len: "length newOrder = length (Panels (ds ! nat dIndex))"
    and perm: "sort newOrder = map int [0..<length newOrder]"
  shows "ReorderPanel ops ns dIndex newOrder t =
     (case SetDashboard ops ns
             (ds[nat dIndex := (ds ! nat dIndex)
                   \<lparr>Panels := map (\<lambda>i. Panels (ds ! nat dIndex) ! nat i) newOrder\<rparr>]) t of
        (err, t') \<Rightarrow> (Returns err, t'))"
proof -
  have ne: "length ds \<noteq> 0" using d0 d1 by auto
  have ok: "\<not> invalidOrder newOrder" using perm by (simp add: invalidOrder_iff)
  have loop: "ReorderPanel_loop (Panels (ds ! nat dIndex)) newOrder =
      Returns (map (\<lambda>i. Panels (ds ! nat dIndex) ! nat i) newOrder)"
    by (rule ReorderPanel_loop_in_range) (use valid_order_range[OF perm] len in auto)
  show ?thesis
    using d0 d1 ne len ok by (simp add: ReorderPanel_def get loop Let_def)
qed

lemma ReorderPanel_invalid:
  assumes get: "GetDashboard ops t ns = Inr ds"
    and d0: "0 \<le> dIndex"
    and bad: "\<not> (dIndex < int (length ds) \<and>
                length newOrder = length (Panels (ds ! nat dIndex)) \<and>
                sort newOrder = map int [0..<length newOrder])"
  shows "\<exists>e. ReorderPanel ops ns dIndex newOrder t = (Returns (Some e), t)"
proof (cases "dIndex < int (length ds)")
  case False
  then show ?thesis by (simp add: ReorderPanel_def get)
next
  case True
  then have ne: "length ds \<noteq> 0" using d0 by auto
  show ?thesis
  proof (cases "length newOrder = length (Panels (ds ! nat dIndex))")
    case False
    then show ?thesis using True d0 ne by (simp add: ReorderPanel_def get)
  next
    case len: True
    from bad True len have "sort newOrder \<noteq> map int [0..<length newOrder]" by blast
    then have "invalidOrder newOrder" using invalidOrder_iff[of newOrder] by blast
    then show ?thesis using True d0 ne len by (simp add: ReorderPanel_def get)
  qed
qed

lemma ReorderPanel_no_dashboards:
  assumes "GetDashboard ops t ns = Inr []"
  shows "ReorderPanel ops ns dIndex newOrder t = (Returns (Some ErrInvalidParam), t)"
  using assms by (simp add: ReorderPanel_def)

subsection \<open>\<open>ReorderPanel\<close>\<close>

text \<open>
  Claim C8 says that, when the dashboards of the namespace read back, \<open>ReorderPanel\<close>
  succeeds only for a valid dashboard index and a new order that is as long as the panel
  list and whose sorted form is \<open>0, 1, \<dots>, len - 1\<close>, that the new panel list then holds at
  place \<open>i\<close> the old panel at place \<open>newOrder[i]\<close>, and that every other call returns an
  error and stores nothing.  For a negative \<open>dIndex\<close> on a namespace that has dashboards
  this fails: the index passes the one comparison \<open>dIndex >= len(dashboards)\<close> and
  \<open>dashboards[dIndex]\<close> panics, so no error is returned.  Here the one dashboard reads
  back and the call with index \<open>-1\<close> panics.
\<close>

theorem ReorderPanel_negative_index:
  "GetDashboard exampleTree ''A'' ''ns'' = Inr [\<lparr>Title = ''d'', Panels = [10, 20, 30]\<rparr>] \<and>
   ReorderPanel exampleTree ''ns'' (- 1) [0, 1, 2] ''A'' = (Panics ''index out of range'', ''A'')"
  by (simp add: ReorderPanel_def GetDashboard_def exampleTree_def)

text \<open>
  Claim C8, amended to the calls that do not index a non-empty dashboard list with a
  negative \<open>dIndex\<close>: when the dashboards \<open>ds\<close> of the namespace read back, and \<open>0 \<le> dIndex\<close>
  or \<open>ds\<close> is empty, then either \<open>dIndex\<close> is a valid index of \<open>ds\<close>, \<open>newOrder\<close> is as long
  as the panel list of \<open>ds[dIndex]\<close> and its sorted form is \<open>0, 1, \<dots>, len - 1\<close>, and the
  call is the call of \<open>SetDashboard\<close> on \<open>ds\<close> with the panels of \<open>ds[dIndex]\<close> replaced by
  the list that holds at place \<open>i\<close> the old panel at place \<open>newOrder[i]\<close>, returning what
  that returns; or the call returns an error and leaves the state as it is.
\<close>

theorem ReorderPanel_spec:
  assumes "GetDashboard ops t ns = Inr ds" and "0 \<le> dIndex \<or> ds = []"
  shows "if 0 \<le> dIndex \<and> dIndex < int (length ds) \<and>
            length newOrder = length (Panels (ds ! nat dIndex)) \<and>
            sort newOrder = map int [0..<length newOrder]
         then ReorderPanel ops ns dIndex newOrder t =
                (case SetDashboard ops ns
                        (ds[nat dIndex := (ds ! nat dIndex)
                              \<lparr>Panels := map (\<lambda>i. Panels (ds ! nat dIndex) ! nat i) newOrder\<rparr>]) t of
                   (err, t') \<Rightarrow> (Returns err, t'))
         else (\<exists>e. ReorderPanel ops ns dIndex newOrder t = (Returns (Some e), t))"
proof (cases "0 \<le> dIndex")
  case True
  show ?thesis
    using ReorderPanel_valid[OF assms(1) True] ReorderPanel_invalid[OF assms(1) True] True
    by (simp split: if_splits)
next
  case False
  with assms(2) have "ds = []" by simp
  with assms(1) have "GetDashboard ops t ns = Inr []" by simp
  from ReorderPanel_no_dashboards[OF this] False show ?thesis by simp
qed

theorem ReorderPanel_spec_witness:
  "GetDashboard exampleTree ''A'' ''ns'' = Inr [\<lparr>Title = ''d'', Panels = [10, 20, 30]\<rparr>] \<and>
   (0::int) \<le> 0 \<and>
   ReorderPanel exampleTree ''ns'' 0 [2, 0, 1] ''A'' = (Returns None, ''B'') \<and>
   fst (ReorderPanel exampleTree ''ns'' 0 [2, 0, 0] ''A'') \<noteq> Returns None \<and>
   snd (ReorderPanel exampleTree ''ns'' 0 [2, 0, 0] ''A'') = ''A'' \<and>
   GetDashboard exampleTree [] ''ns'' = Inr [] \<and>
   fst (ReorderPanel exampleTree ''ns'' (- 1) [] []) \<noteq> Returns None \<and>
   snd (ReorderPanel exampleTree ''ns'' (- 1) [] []) = []"
proof -
  have g: "GetDashboard exampleTree ''A'' ''ns'' = Inr [\<lparr>Title = ''d'', Panels = [10, 20, 30]\<rparr>]"
    by (simp add: GetDashboard_def exampleTree_def)
  have g0: "GetDashboard exampleTree [] ''ns'' = Inr []"
    by (simp add: GetDashboard_def exampleTree_def)
  have d0: "(0::int) \<le> 0 \<or> [\<lparr>Title = ''d'', Panels = [10, 20, 30::nat]\<rparr>] = []"
    by simp
  have d1: "(0::int) \<le> - 1 \<or> ([] :: nat Dashboard list) = []"
    by simp
  have s: "sort [2, 0, 1 :: int] = map int [0..<length [2, 0, 1 :: int]]"
    by (simp add: upt_rec)
  have s': "sort [2, 0, 0 :: int] \<noteq> map int [0..<length [2, 0, 0 :: int]]"
    by (simp add: upt_rec)
  from ReorderPanel_spec[OF g d0, of "[2, 0, 1]"] s
  have "ReorderPanel exampleTree ''ns'' 0 [2, 0, 1] ''A'' = (Returns None, ''B'')"
    by (simp add: SetDashboard_def exampleTree_def)
  moreover from ReorderPanel_spec[OF g d0, of "[2, 0, 0]"] s'
  have "fst (ReorderPanel exampleTree ''ns'' 0 [2, 0, 0] ''A'') \<noteq> Returns None \<and>
        snd (ReorderPanel exampleTree ''ns'' 0 [2, 0, 0] ''A'') = ''A''"
    by auto
  moreover from ReorderPanel_spec[OF g0 d1, of "[]"]
  have "fst (ReorderPanel exampleTree ''ns'' (- 1) [] []) \<noteq> Returns None \<and>
        snd (ReorderPanel exampleTree ''ns'' (- 1) [] []) = []"
    by auto
  ultimately show ?thesis using g g0 by simp
qed

subsection \<open>\<open>RemoveDashboard\<close> with an index beyond the end\<close>

text \<open>
  Claim C9: when the dashboards of the namespace read back without error and \<open>dIndex\<close> is
  at least their number, \<open>RemoveDashboard\<close> returns nil and writes nothing, while
  \<open>UpdateDashboard\<close> returns \<open>ErrInvalidParam\<close> for the same index (and writes nothing
  either).
\<close>

theorem RemoveDashboard_out_of_range:
  assumes "GetDashboard ops t ns = Inr ds" and "int (length ds) \<le> dIndex"
  shows "RemoveDashboard ops ns dIndex t = (Returns None, t) \<and>
         UpdateDashboard ops ns dIndex title t = (Returns (Some ErrInvalidParam), t)"
  using assms by (simp add: RemoveDashboard_def UpdateDashboard_def)

theorem RemoveDashboard_out_of_range_witness:
  "GetDashboard exampleTree ''A'' ''ns'' = Inr [\<lparr>Title = ''d'', Panels = [10, 20, 30]\<rparr>] \<and>
   int (length [\<lparr>Title = ''d'', Panels = [10, 20, 30::nat]\<rparr>]) \<le> 1 \<and>
   RemoveDashboard exampleTree ''ns'' 1 ''A'' = (Returns None, ''A'') \<and>
   UpdateDashboard exampleTree ''ns'' 1 ''x'' ''A'' = (Returns (Some ErrInvalidParam), ''A'')"
proof -
  have g: "GetDashboard exampleTree ''A'' ''ns'' = Inr [\<lparr>Title = ''d'', Panels = [10, 20, 30]\<rparr>]"
    by (simp add: GetDashboard_def exampleTree_def)
  show ?thesis
    using g RemoveDashboard_out_of_range[OF g, of 1 "''x''"] by simp
qed

section \<open>Properties of the key-value engine model\<close>

lemma map_of_put_pair: "map_of (put_pair k v kvs) = (map_of kvs)(k \<mapsto> v)"
  by (induction kvs) (auto simp: fun_upd_twist)

lemma set_put_pair: "fst ` set (put_pair k v kvs) = insert k (fst ` set kvs)"
  by (induction k v kvs rule: put_pair.induct) auto

lemma sorted_put_pair:
  "sorted (map fst kvs) \<Longrightarrow> sorted (map fst (put_pair k v kvs))"
proof (induction k v kvs rule: put_pair.induct)
  case (1 k v)
  then show ?case by simp
next
  case (2 k v k' v' rest)
  show ?case
  proof (cases "k < k'")
    case True
    then show ?thesis using "2.prems" by auto
  next
    case nlt: False
    show ?thesis
    proof (cases "k = k'")
      case True
      then show ?thesis using "2.prems" by simp
    next
      case False
      with nlt have lt: "k' < k" by simp
      have "sorted (map fst (put_pair k v rest))"
        using "2.IH"[OF nlt False] "2.prems" by simp
      moreover have "\<forall>x \<in> fst ` set (put_pair k v rest). k' \<le> x"
        using lt "2.prems" by (auto simp: set_put_pair)
      ultimately show ?thesis using nlt False by simp
    qed
  qed
qed

lemma distinct_put_pair:
  "sorted (map fst kvs) \<Longrightarrow> distinct (map fst kvs) \<Longrightarrow> distinct (map fst (put_pair k v kvs))"
proof (induction k v kvs rule: put_pair.induct)
  case (1 k v)
  then show ?case by simp
next
  case (2 k v k' v' rest)
  show ?case
  proof (cases "k < k'")
    case True
    have "k \<notin> fst ` set rest"
    proof
      assume "k \<in> fst ` set rest"
      then have "k' \<le> k" using "2.prems"(1) by auto
      with True show False by simp
    qed
    then show ?thesis using True "2.prems" by auto
  next
    case nlt: False
    show ?thesis
    proof (cases "k = k'")
      case True
      then show ?thesis using "2.prems" by simp
    next
      case False
      have "distinct (map fst (put_pair k v rest))"
        using "2.IH"[OF nlt False] "2.prems" by simp
      moreover have "k' \<notin> fst ` set (put_pair k v rest)"
        using False "2.prems"(2) by (auto simp: set_put_pair)
      ultimately show ?thesis using nlt False by simp
    qed
  qed
qed

lemma bucket_wf_put_pair:
  assumes "bucket_wf kvs" "k \<noteq> []"
  shows "bucket_wf (put_pair k v kvs)"
  unfolding bucket_wf_def
proof (intro conjI)
  show "sorted (map fst (put_pair k v kvs))"
    using assms(1) by (simp add: bucket_wf_def sorted_put_pair)
  show "distinct (map fst (put_pair k v kvs))"
    using assms(1) by (simp add: bucket_wf_def distinct_put_pair)
  have "[] \<notin> fst ` set (put_pair k v kvs)"
    using assms by (simp add: set_put_pair bucket_wf_def)
  then show "[] \<notin> set (map fst (put_pair k v kvs))" by simp
qed

lemma map_of_delete: "map_of (filter (\<lambda>p. fst p \<noteq> k) kvs) = (map_of kvs)(k := None)"
  by (induction kvs) auto

lemma bucket_wf_delete:
  "bucket_wf kvs \<Longrightarrow> bucket_wf (filter (\<lambda>p. fst p \<noteq> k) kvs)"
  by (auto simp: bucket_wf_def sorted_filter distinct_map_filter)

lemma cursor_Seek_empty: "cursor_Seek [] kvs = kvs"
  by (cases kvs) (simp_all add: cursor_Seek_def)

lemma ViewPrefix_loop_empty_prefix:
  assumes "distinct (map fst kvs)" "[] \<notin> fst ` set kvs"
  shows "ViewPrefix_loop [] kvs result = result ++ map_of (filter (\<lambda>p. snd p \<noteq> []) kvs)"
  using assms
proof (induction kvs arbitrary: result)
  case Nil
  then show ?case by simp
next
  case (Cons p kvs)
  obtain k v where p: "p = (k, v)" by (cases p)
  from Cons.prems have k: "k \<noteq> []" "k \<notin> fst ` set kvs" and d: "distinct (map fst kvs)"
    "[] \<notin> fst ` set kvs" by (auto simp: p)
  have nd: "k \<notin> dom (map_of (filter (\<lambda>p. snd p \<noteq> []) kvs))"
    using k(2) by (auto simp: dom_map_of_conv_image_fst)
  show ?case
  proof (cases "v = []")
    case True
    have "ViewPrefix_loop [] (p # kvs) result = ViewPrefix_loop [] kvs result"
      using True k(1) by (simp add: p)
    also have "\<dots> = result ++ map_of (filter (\<lambda>p. snd p \<noteq> []) kvs)"
      by (rule Cons.IH[OF d])
    also have "\<dots> = result ++ map_of (filter (\<lambda>p. snd p \<noteq> []) (p # kvs))"
      using True by (simp add: p)
    finally show ?thesis .
  next
    case False
    have "ViewPrefix_loop [] (p # kvs) result = ViewPrefix_loop [] kvs (result(k \<mapsto> v))"
      using False k(1) by (simp add: p)
    also have "\<dots> = result(k \<mapsto> v) ++ map_of (filter (\<lambda>p. snd p \<noteq> []) kvs)"
      by (rule Cons.IH[OF d])
    also have "\<dots> = (result ++ map_of (filter (\<lambda>p. snd p \<noteq> []) kvs))(k \<mapsto> v)"
      using nd by (auto simp: map_add_def fun_eq_iff split: option.splits)
    also have "\<dots> = result ++ map_of (filter (\<lambda>p. snd p \<noteq> []) (p # kvs))"
      using False by (simp add: p)
    finally show ?thesis .
  qed
qed

lemma bucket_Get_put_pair:
  "bucket_Get (put_pair k v kvs) k' = (if k' = k then Some v else bucket_Get kvs k')"
  by (simp add: bucket_Get_def map_of_put_pair)

lemma bucket_Get_delete:
  "bucket_Get (filter (\<lambda>p. fst p \<noteq> k) kvs) k' = (if k' = k then None else bucket_Get kvs k')"
  by (simp add: bucket_Get_def map_of_delete)

section \<open>Properties of the store\<close>

subsection \<open>Writes on a node that is not the leader\<close>

text \<open>
  Claim C2: on a node whose raft state is not \<open>Leader\<close>, each of \<open>Update\<close>, \<open>Batch\<close>,
  \<open>CreateBucket\<close>, \<open>CreateBucketIfNotExist\<close>, \<open>RemoveKey\<close>, \<open>RemoveBucket\<close>, \<open>SetSession\<close>,
  \<open>DelSession\<close> and \<open>Restore\<close> returns \<open>ErrNotLeader\<close> and leaves the store as it is: the
  database, the cache, the session table, and the list of proposed log entries (nothing
  is encoded or handed to consensus), whatever the collaborators are.
\<close>

theorem not_leader_writes:
  assumes "raftState s \<noteq> Leader"
  shows "Update co bkt k v s = (Some ErrNotLeader, s) \<and>
         Store_Batch co rows s = (Some ErrNotLeader, s) \<and>
         CreateBucket co name s = (Some ErrNotLeader, s) \<and>
         CreateBucketIfNotExist co name s = (Some ErrNotLeader, s) \<and>
         RemoveKey co bkt k s = (Some ErrNotLeader, s) \<and>
         RemoveBucket co name s = (Some ErrNotLeader, s) \<and>
         SetSession co sk sv s = (Some ErrNotLeader, s) \<and>
         DelSession co sk s = (Some ErrNotLeader, s) \<and>
         Restore co backupfile s = (Some ErrNotLeader, s)"
  using assms
  by (simp add: Update_def Store_Batch_def CreateBucket_def CreateBucketIfNotExist_def
        RemoveKey_def RemoveBucket_def SetSession_def DelSession_def Restore_def)

theorem not_leader_writes_witness:
  "raftState (exampleStore Follower [(''k'', ''old'')]) \<noteq> Leader \<and>
   Update exampleCollab ''b'' ''k'' ''v'' (exampleStore Follower [(''k'', ''old'')]) =
     (Some ErrNotLeader, exampleStore Follower [(''k'', ''old'')]) \<and>
   SetSession exampleCollab ''token'' ''user'' (exampleStore Follower [(''k'', ''old'')]) =
     (Some ErrNotLeader, exampleStore Follower [(''k'', ''old'')])"
proof -
  have "raftState (exampleStore Follower [(''k'', ''old'')]) \<noteq> Leader"
    by (simp add: exampleStore_def)
  then show ?thesis
    using not_leader_writes[of "exampleStore Follower [(''k'', ''old'')]" exampleCollab
        "''b''" "''k''" "''v''" _ _ "''token''" "''user''"]
    by simp
qed

subsection \<open>\<open>Batch\<close> without rows\<close>

text \<open>
  Claim C7: \<open>Batch\<close> with an empty row list returns an error on every node and leaves the
  store as it is, the list of proposed log entries included: \<open>ErrNotLeader\<close> on a node
  that is not the leader, and the error \<open>no data in batch\<close> on the leader.
\<close>

theorem Batch_no_rows:
  "Store_Batch co [] s =
     (Some (if raftState s \<noteq> Leader then ErrNotLeader else errors_New ''no data in batch''), s)"
  by (simp add: Store_Batch_def)

theorem Batch_no_rows_witness:
  "Store_Batch exampleCollab [] (exampleStore Leader []) =
     (Some (errors_New ''no data in batch''), exampleStore Leader []) \<and>
   Store_Batch exampleCollab [] (exampleStore Candidate []) =
     (Some ErrNotLeader, exampleStore Candidate [])"
  using Batch_no_rows[of exampleCollab "exampleStore Leader []"]
    Batch_no_rows[of exampleCollab "exampleStore Candidate []"]
  by (simp add: exampleStore_def)

subsection \<open>The row count of \<open>update\<close> and \<open>removeKey\<close> commands\<close>










subsection \<open>\<open>ViewPrefix\<close> with the empty prefix\<close>

text \<open>
  Claim C6 says that \<open>ViewPrefix\<close> with the empty prefix returns every entry of an
  existing bucket.  The loop stores a pair only \<open>if len(v) != 0\<close>, so an entry with an
  empty value is left out: after the update of key \<open>k\<close> in bucket \<open>b\<close> to the empty value
  has been applied, the bucket holds \<open>k\<close> with the empty value, and the scan returns no
  error and a mapping without \<open>k\<close>.
\<close>

theorem ViewPrefix_skips_empty_value:
  "applyUpdate exampleCollab ''r2'' (exampleStore Follower []) =
     (None, exampleStore Follower [(''k'', [])]) \<and>
   bucket_Get [(''k'', [])] ''k'' = Some [] \<and>
   snd (ViewPrefix ''b'' [] (exampleStore Follower [(''k'', [])])) = None \<and>
   fst (ViewPrefix ''b'' [] (exampleStore Follower [(''k'', [])])) ''k'' = None"
  by (simp add: applyUpdate_def exampleCollab_def exampleStore_def Let_def db_Update_def
        db_Begin_def tx_Bucket_def bucket_Put_def MaxKeySize_def MaxValueSize_def Remove_def
        NewCache_def bucket_Get_def ViewPrefix_def cursor_Seek_def)

text \<open>
  Claim C6, amended: on an open database, for an existing bucket (its keys in order, each
  once, none empty), \<open>ViewPrefix\<close> with the empty prefix returns no error and the mapping
  of exactly the entries of the bucket whose value is not empty: a key maps to a value in
  the result if and only if the bucket holds that value under the key and the value is
  not empty.
\<close>

theorem ViewPrefix_empty_prefix:
  assumes "opened (db s)" and "buckets (db s) bkt = Some kvs" and "bucket_wf kvs"
  shows "ViewPrefix bkt [] s = (map_of (filter (\<lambda>p. snd p \<noteq> []) kvs), None) \<and>
         (\<forall>k v. fst (ViewPrefix bkt [] s) k = Some v \<longleftrightarrow> bucket_Get kvs k = Some v \<and> v \<noteq> [])"
proof -
  have d: "distinct (map fst kvs)" "[] \<notin> fst ` set kvs"
    using assms(3) by (simp_all add: bucket_wf_def)
  have eq: "ViewPrefix bkt [] s = (map_of (filter (\<lambda>p. snd p \<noteq> []) kvs), None)"
    using assms(1,2)
    by (simp add: ViewPrefix_def db_Begin_def tx_Bucket_def cursor_Seek_empty
          ViewPrefix_loop_empty_prefix[OF d])
  have df: "distinct (map fst (filter (\<lambda>p. snd p \<noteq> []) kvs))"
    using d(1) by (rule distinct_map_filter)
  have "map_of (filter (\<lambda>p. snd p \<noteq> []) kvs) k = Some v \<longleftrightarrow> map_of kvs k = Some v \<and> v \<noteq> []"
    for k v
    using d(1) df by auto
  then show ?thesis by (simp add: eq bucket_Get_def)
qed

theorem ViewPrefix_empty_prefix_witness:
  "opened (db (exampleStore Follower [(''alpha'', ''1''), (''beta'', []), (''gamma'', ''3'')])) \<and>
   buckets (db (exampleStore Follower [(''alpha'', ''1''), (''beta'', []), (''gamma'', ''3'')])) ''b'' =
     Some [(''alpha'', ''1''), (''beta'', []), (''gamma'', ''3'')] \<and>
   bucket_wf [(''alpha'', ''1''), (''beta'', []), (''gamma'', ''3'')] \<and>
   ViewPrefix ''b'' [] (exampleStore Follower [(''alpha'', ''1''), (''beta'', []), (''gamma'', ''3'')]) =
     ([''alpha'' \<mapsto> ''1'', ''gamma'' \<mapsto> ''3''], None)"
proof -
  have o: "opened (db (exampleStore Follower [(''alpha'', ''1''), (''beta'', []), (''gamma'', ''3'')]))"
    and b: "buckets (db (exampleStore Follower [(''alpha'', ''1''), (''beta'', []), (''gamma'', ''3'')])) ''b'' =
     Some [(''alpha'', ''1''), (''beta'', []), (''gamma'', ''3'')]"
    by (simp_all add: exampleStore_def)
  have w: "bucket_wf [(''alpha'', ''1''), (''beta'', []), (''gamma'', ''3'')]"
    by (simp add: bucket_wf_def)
  from ViewPrefix_empty_prefix[OF o b w] have
    "ViewPrefix ''b'' [] (exampleStore Follower [(''alpha'', ''1''), (''beta'', []), (''gamma'', ''3'')]) =
     ([''alpha'' \<mapsto> ''1'', ''gamma'' \<mapsto> ''3''], None)"
    by (auto simp: fun_eq_iff)
  then show ?thesis using o b w by simp
qed

end
